theory Spec2Isabelle
  imports Main
begin

section \<open>Python values shared by both modules\<close>

text \<open>
  Exceptions of the Python runtime that the modelled code can raise. A function that can
  raise returns \<open>py_error + 'a\<close>, with \<open>Inl\<close> for the exception.
\<close>

datatype py_error =
  AssertionError | IndexError | KeyError | TypeError | AttributeError | SystemExit

text \<open>
  Python list subscription \<open>xs[i]\<close>: an index from \<open>-len(xs)\<close> up to \<open>-1\<close> counts
  from the end, an index outside \<open>-len(xs) .. len(xs) - 1\<close> raises \<open>IndexError\<close>.
\<close>

definition py_index :: "int \<Rightarrow> nat \<Rightarrow> nat option" where
  "py_index i n =
     (if 0 \<le> i \<and> i < int n then Some (nat i)
      else if i < 0 \<and> - int n \<le> i then Some (nat (int n + i))
      else None)"

definition py_getitem :: "'a list \<Rightarrow> int \<Rightarrow> py_error + 'a" where
  "py_getitem xs i =
     (case py_index i (length xs) of None \<Rightarrow> Inl IndexError | Some k \<Rightarrow> Inr (xs ! k))"

definition py_setitem :: "'a list \<Rightarrow> int \<Rightarrow> 'a \<Rightarrow> py_error + 'a list" where
  "py_setitem xs i x =
     (case py_index i (length xs) of None \<Rightarrow> Inl IndexError | Some k \<Rightarrow> Inr (xs[k := x]))"

text \<open>\<open>s.startswith(p)\<close>.\<close>

definition startswith :: "string \<Rightarrow> string \<Rightarrow> bool" where
  "startswith s p = (take (length p) s = p)"

section \<open>graph.py: nodes and links\<close>

text \<open>
  \<open>VNode\<close>: the identity token \<open>_uuid\<close> (the value \<open>uuid.uuid4()\<close> returned when the node
  was built, here a number handed to the constructor), the display name, the Node-SID
  \<open>_nsid\<close> (0 at construction) and the system identifier.
\<close>

record VNode =
  uuid :: nat
  name :: string
  nsid :: int
  system_id :: string

definition VNode_init :: "nat \<Rightarrow> string \<Rightarrow> string \<Rightarrow> VNode" where
  "VNode_init fresh_uuid nm sysid =
     \<lparr>uuid = fresh_uuid, name = nm, nsid = 0, system_id = sysid\<rparr>"

text \<open>
  The right operand of \<open>==\<close> is any Python object: \<open>VNode.__eq__\<close> first tests
  \<open>isinstance(o, VNode)\<close>.
\<close>

datatype py_object = Obj_VNode VNode | Obj_other

definition VNode_eq :: "VNode \<Rightarrow> py_object \<Rightarrow> bool" where
  "VNode_eq self o' =
     (case o' of
        Obj_VNode n \<Rightarrow> uuid self = uuid n \<and> system_id self = system_id n
      | Obj_other \<Rightarrow> False)"

text \<open>
  \<open>VNode.__hash__\<close> is \<open>hash(self._uuid)\<close>; the hash of a UUID is the library's, taken as
  the parameter \<open>hash_uuid\<close>.
\<close>

definition VNode_hash :: "(nat \<Rightarrow> int) \<Rightarrow> VNode \<Rightarrow> int" where
  "VNode_hash hash_uuid self = hash_uuid (uuid self)"

text \<open>The setter of \<open>system_id\<close> (its argument is a string by type).\<close>

definition set_system_id :: "VNode \<Rightarrow> string \<Rightarrow> VNode" where
  "set_system_id self v = self\<lparr>system_id := v\<rparr>"

definition set_nsid :: "VNode \<Rightarrow> int \<Rightarrow> VNode" where
  "set_nsid self v = self\<lparr>nsid := v\<rparr>"

text \<open>
  \<open>VEdge\<close>: identity token, the two vertices in order, the adjacency SID, the interface
  name and the neighbour's SNPA (both \<open>""\<close> at construction) and the interface MAC.
  \<open>__init__\<close> does not create \<open>_inf_mac\<close>: the attribute exists only once the setter has
  run, hence the option.
\<close>

record VEdge =
  edge_uuid :: nat
  vertices :: "VNode \<times> VNode"
  adj_sid :: int
  inf_name :: string
  nei_snpa :: string
  inf_mac :: "string option"

definition VEdge_init :: "nat \<Rightarrow> VNode \<Rightarrow> VNode \<Rightarrow> int \<Rightarrow> VEdge" where
  "VEdge_init fresh_uuid v1 v2 sid =
     \<lparr>edge_uuid = fresh_uuid, vertices = (v1, v2), adj_sid = sid,
      inf_name = [], nei_snpa = [], inf_mac = None\<rparr>"

definition set_inf_name :: "VEdge \<Rightarrow> string \<Rightarrow> VEdge" where
  "set_inf_name self v = self\<lparr>inf_name := v\<rparr>"

definition set_nei_snpa :: "VEdge \<Rightarrow> string \<Rightarrow> VEdge" where
  "set_nei_snpa self v = self\<lparr>nei_snpa := v\<rparr>"

text \<open>
  The setter of \<open>inf_mac\<close>: \<open>assert len(value) == 14\<close>, then
  \<open>assert value.startswith('0x')\<close>, then the assignment.
\<close>

definition set_inf_mac :: "VEdge \<Rightarrow> string \<Rightarrow> py_error + VEdge" where
  "set_inf_mac self v =
     (if length v \<noteq> 14 then Inl AssertionError
      else if \<not> startswith v ''0x'' then Inl AssertionError
      else Inr (self\<lparr>inf_mac := Some v\<rparr>))"

text \<open>
  The format the specification gives for the interface hardware address, written from its
  words: \<open>0x\<close>, then 12 lowercase hexadecimal digits, 14 characters in all.
\<close>

definition lower_hex_digit :: "char \<Rightarrow> bool" where
  "lower_hex_digit c = (c \<in> set ''0123456789abcdef'')"

definition spec_mac_format :: "string \<Rightarrow> bool" where
  "spec_mac_format s =
     (length s = 14 \<and> take 2 s = ''0x'' \<and> list_all lower_hex_digit (drop 2 s))"

text \<open>
  \<open>nx_edge\<close>: the tuple handed to the graph library. Reading \<open>self.inf_mac\<close> before the
  setter has run raises \<open>AttributeError\<close>.
\<close>

record edge_attrs =
  attr_adj_sid :: int
  attr_inf_name :: string
  attr_inf_mac :: string
  attr_nei_snpa :: string

type_synonym nx_edge_t = "VNode \<times> VNode \<times> edge_attrs"

definition nx_edge :: "VEdge \<Rightarrow> py_error + nx_edge_t" where
  "nx_edge self =
     (case inf_mac self of
        None \<Rightarrow> Inl AttributeError
      | Some mac \<Rightarrow>
          Inr (fst (vertices self), snd (vertices self),
               \<lparr>attr_adj_sid = adj_sid self, attr_inf_name = inf_name self,
                attr_inf_mac = mac, attr_nei_snpa = nei_snpa self\<rparr>))"

section \<open>main.py: lookups in the node list\<close>

text \<open>
  \<open>sys_id_in_nodes\<close>, \<open>sys_to_idx\<close> and \<open>name_to_idx\<close> scan the node list from the front with a
  running index \<open>idx\<close>; the first node that matches decides, and \<open>-1\<close> (or \<open>False\<close>) is
  returned when the loop ends without a match.
\<close>

fun sys_id_in_nodes :: "VNode list \<Rightarrow> string \<Rightarrow> bool" where
  "sys_id_in_nodes [] sid = False"
| "sys_id_in_nodes (node # rest) sid =
     (if system_id node = sid then True else sys_id_in_nodes rest sid)"

fun sys_to_idx_from :: "int \<Rightarrow> VNode list \<Rightarrow> string \<Rightarrow> int" where
  "sys_to_idx_from idx [] sid = - 1"
| "sys_to_idx_from idx (node # rest) sid =
     (if system_id node = sid then idx else sys_to_idx_from (idx + 1) rest sid)"

definition sys_to_idx :: "VNode list \<Rightarrow> string \<Rightarrow> int" where
  "sys_to_idx nodes sid = sys_to_idx_from 0 nodes sid"

text \<open>
  \<open>str.strip()\<close> removes the leading and trailing characters for which \<open>isspace()\<close> holds.
  A \<open>char\<close> stands for a code point below 256; the white space among them is
  \<open>\t \n \v \f \r\<close>, the separators 28 to 31, the blank, NEL (133) and the no-break space (160).
\<close>

definition py_isspace :: "char \<Rightarrow> bool" where
  "py_isspace c = (of_char c \<in> set [9, 10, 11, 12, 13, 28, 29, 30, 31, 32, 133, 160 :: nat])"

definition strip :: "string \<Rightarrow> string" where
  "strip s = rev (dropWhile py_isspace (rev (dropWhile py_isspace s)))"

fun name_to_idx_from :: "int \<Rightarrow> VNode list \<Rightarrow> string \<Rightarrow> int" where
  "name_to_idx_from idx [] nm = - 1"
| "name_to_idx_from idx (node # rest) nm =
     (if name node = nm then idx else name_to_idx_from (idx + 1) rest nm)"

definition name_to_idx :: "VNode list \<Rightarrow> string \<Rightarrow> int" where
  "name_to_idx nodes nm = name_to_idx_from 0 nodes (strip nm)"

section \<open>main.py: normalising a neighbour's system identifier\<close>

text \<open>
  \<open>s.replace('0x', '')\<close> deletes every occurrence of \<open>0x\<close>, found from left to right without
  overlap.
\<close>

fun replace_0x :: "string \<Rightarrow> string" where
  "replace_0x (a # b # cs) =
     (if a = CHR ''0'' \<and> b = CHR ''x'' then replace_0x cs else a # replace_0x (b # cs))"
| "replace_0x cs = cs"

text \<open>
  \<open>[s[i:i+4] for i in range(0, len(s), 4)]\<close>: the slices that start at \<open>0, 4, 8, ...\<close> below
  \<open>len(s)\<close>.
\<close>

definition chunks4 :: "string \<Rightarrow> string list" where
  "chunks4 s = map (\<lambda>k. take 4 (drop (4 * k) s)) [0 ..< (length s + 3) div 4]"

text \<open>\<open>sep.join(parts)\<close>.\<close>

fun join :: "string \<Rightarrow> string list \<Rightarrow> string" where
  "join sep [] = []"
| "join sep [p] = p"
| "join sep (p # q # ps) = p @ sep @ join sep (q # ps)"

definition normalise_nbr_id :: "string \<Rightarrow> string" where
  "normalise_nbr_id raw = join ''.'' (chunks4 (replace_0x raw))"

definition hex_digit :: "char \<Rightarrow> bool" where
  "hex_digit c = (c \<in> set ''0123456789abcdefABCDEF'')"

section \<open>main.py: adjacency extraction\<close>

text \<open>
  One node's ISIS state as \<open>get_inf_adjs\<close> reads it: the operational system identifier and
  the interfaces in the order the container iterates them. An interface has a name and at
  most one adjacency (entry 1 of its adjacency list); an adjacency has its operational
  state, the neighbour's raw system identifier and SNPA address, and the \<open>sr-ipv4\<close> SID
  value, which is absent (\<open>None\<close>) when the record has no such entry: reading it then
  raises \<open>KeyError\<close>.
\<close>

record adjacency_rec =
  oper_state :: string
  nbr_system_id :: string
  snpa_address :: string
  sid_value :: "int option"

record interface_rec =
  interface_name :: string
  adjacency :: "adjacency_rec option"

record isis_rec =
  oper_system_id :: string
  interfaces :: "interface_rec list"

text \<open>
  The adjacency matrix is a list of rows; \<open>None\<close> is the empty cell. \<open>main\<close> builds it with
  one fresh row per node.
\<close>

type_synonym adj_matrix = "VEdge option list list"

definition empty_matrix :: "nat \<Rightarrow> adj_matrix" where
  "empty_matrix n = replicate n (replicate n None)"

text \<open>
  What the loop of \<open>get_inf_adjs\<close> carries: the list \<open>adjs\<close>, the matrix it mutates, and the
  identity token the next \<open>VEdge\<close> will draw.
\<close>

record extract_state =
  adjs :: "VEdge list"
  adj_martix :: adj_matrix
  next_uuid :: nat

text \<open>
  \<open>if adj_martix[src][dst] is None: adj_martix[src][dst] = ve\<close>. The row
  \<open>adj_martix[src]\<close> is fetched, its cell read and, when empty, written in place; no two
  rows of the matrix are the same list.
\<close>

definition matrix_store :: "adj_matrix \<Rightarrow> int \<Rightarrow> int \<Rightarrow> VEdge \<Rightarrow> py_error + adj_matrix" where
  "matrix_store m src_node_idx dst_node_idx ve =
     (case py_getitem m src_node_idx of
        Inl e \<Rightarrow> Inl e
      | Inr row \<Rightarrow>
         (case py_getitem row dst_node_idx of
            Inl e \<Rightarrow> Inl e
          | Inr cur \<Rightarrow>
              if cur = None then
                (case py_setitem row dst_node_idx (Some ve) of
                   Inl e \<Rightarrow> Inl e
                 | Inr row' \<Rightarrow> py_setitem m src_node_idx row')
              else Inr m))"

text \<open>
  The statements after the membership test, for an adjacency that is up and whose
  neighbour is a known node: read the SID, resolve both indices, build the link, write
  the matrix cell when it is \<open>None\<close>, append the link.
\<close>

definition record_adjacency ::
  "VNode list \<Rightarrow> string \<Rightarrow> string \<Rightarrow> string \<Rightarrow> adjacency_rec \<Rightarrow> extract_state
     \<Rightarrow> py_error + extract_state" where
  "record_adjacency nodes node_id nbr_id ifname adj st =
     (case sid_value adj of
        None \<Rightarrow> Inl KeyError
      | Some sid \<Rightarrow>
         (let src_node_idx = sys_to_idx nodes node_id;
              dst_node_idx = sys_to_idx nodes nbr_id
          in case py_getitem nodes src_node_idx of
               Inl e \<Rightarrow> Inl e
             | Inr src_node \<Rightarrow>
            (case py_getitem nodes dst_node_idx of
               Inl e \<Rightarrow> Inl e
             | Inr dst_node \<Rightarrow>
            (let ve = set_nei_snpa
                        (set_inf_name (VEdge_init (next_uuid st) src_node dst_node sid) ifname)
                        (snpa_address adj)
             in case matrix_store (adj_martix st) src_node_idx dst_node_idx ve of
                  Inl e \<Rightarrow> Inl e
                | Inr m' \<Rightarrow>
                    Inr \<lparr>adjs = adjs st @ [ve], adj_martix = m',
                         next_uuid = Suc (next_uuid st)\<rparr>))))"

text \<open>One round of the loop over the interfaces.\<close>

definition inf_step ::
  "VNode list \<Rightarrow> string \<Rightarrow> extract_state \<Rightarrow> interface_rec \<Rightarrow> py_error + extract_state" where
  "inf_step nodes node_id st ifc =
     (case adjacency ifc of
        None \<Rightarrow> Inr st
      | Some adj \<Rightarrow>
          if oper_state adj = ''up'' then
            (let nbr_id = normalise_nbr_id (nbr_system_id adj)
             in if \<not> sys_id_in_nodes nodes nbr_id then Inr st
                else record_adjacency nodes node_id nbr_id (interface_name ifc) adj st)
          else Inr st)"

fun inf_loop ::
  "VNode list \<Rightarrow> string \<Rightarrow> extract_state \<Rightarrow> interface_rec list \<Rightarrow> py_error + extract_state" where
  "inf_loop nodes node_id st [] = Inr st"
| "inf_loop nodes node_id st (ifc # infs) =
     (case inf_step nodes node_id st ifc of
        Inl e \<Rightarrow> Inl e
      | Inr st' \<Rightarrow> inf_loop nodes node_id st' infs)"

text \<open>
  \<open>get_inf_adjs\<close>: the links of one snapshot, with the matrix as the call leaves it and the
  next unused identity token.
\<close>

definition get_inf_adjs ::
  "isis_rec \<Rightarrow> VNode list \<Rightarrow> adj_matrix \<Rightarrow> nat \<Rightarrow> py_error + extract_state" where
  "get_inf_adjs isis nodes m fresh_uuid =
     inf_loop nodes (oper_system_id isis)
       \<lparr>adjs = [], adj_martix = m, next_uuid = fresh_uuid\<rparr> (interfaces isis)"

text \<open>
  \<open>str.lower()\<close> on code points below 256: the letters A to Z and the Latin-1 capitals
  (192 to 222, but not the multiplication sign 215) move up by 32.
\<close>

definition py_lower :: "char \<Rightarrow> char" where
  "py_lower c =
     (let n = (of_char c :: nat)
      in if (65 \<le> n \<and> n \<le> 90) \<or> (192 \<le> n \<and> n \<le> 222 \<and> n \<noteq> 215)
         then char_of (n + 32) else c)"

text \<open>
  \<open>get_inf_mac_by_adj\<close>. For each link the connection is asked for the port of the link's
  interface and then for the hardware MAC address of that port; \<open>hw_mac\<close> stands for the
  connection: what the two requests give for an interface name, or \<open>SystemExit\<close> when the
  connection raises and the function exits. The address loses its colons, is put in
  lower case and prefixed with \<open>0x\<close>, and is written to the link through the setter, whose
  assertion is not caught. The function mutates the links; the model returns them.
\<close>

definition normalise_mac :: "string \<Rightarrow> string" where
  "normalise_mac mac = ''0x'' @ map py_lower (filter (\<lambda>c. c \<noteq> CHR '':'') mac)"

fun get_inf_mac_by_adj ::
  "(string \<Rightarrow> py_error + string) \<Rightarrow> VEdge list \<Rightarrow> py_error + VEdge list" where
  "get_inf_mac_by_adj hw_mac [] = Inr []"
| "get_inf_mac_by_adj hw_mac (e # es) =
     (case hw_mac (inf_name e) of
        Inl x \<Rightarrow> Inl x
      | Inr mac \<Rightarrow>
         (case set_inf_mac e (normalise_mac mac) of
            Inl x \<Rightarrow> Inl x
          | Inr e' \<Rightarrow>
             (case get_inf_mac_by_adj hw_mac es of
                Inl x \<Rightarrow> Inl x
              | Inr es' \<Rightarrow> Inr (e' # es'))))"

text \<open>What the back-fill makes of a link when it succeeds.\<close>

definition mac_written :: "(string \<Rightarrow> py_error + string) \<Rightarrow> VEdge \<Rightarrow> VEdge" where
  "mac_written hw_mac e =
     e\<lparr>inf_mac := Some (normalise_mac (case hw_mac (inf_name e) of Inr mac \<Rightarrow> mac | Inl x \<Rightarrow> []))\<rparr>"

text \<open>
  The links in the matrix are the very objects of the list that \<open>get_inf_adjs\<close> returned,
  so a cell that holds one of them shows the MAC written to it. A link object is known by
  its identity token.
\<close>

definition backfill_cell :: "VEdge list \<Rightarrow> VEdge option \<Rightarrow> VEdge option" where
  "backfill_cell filled c =
     (case c of
        None \<Rightarrow> None
      | Some e \<Rightarrow>
         (case find (\<lambda>f. edge_uuid f = edge_uuid e) filled of
            None \<Rightarrow> Some e
          | Some f \<Rightarrow> Some f))"

definition backfill_matrix :: "VEdge list \<Rightarrow> adj_matrix \<Rightarrow> adj_matrix" where
  "backfill_matrix filled m = map (map (backfill_cell filled)) m"

text \<open>
  What \<open>main\<close> does with one snapshot and its connection: \<open>get_inf_adjs\<close> on the shared
  matrix, \<open>get_inf_mac_by_adj\<close> on the links it returned, and \<open>all_adjs\<close> extended with them.
  \<open>main\<close> does so for the root's snapshot and then for each configured node, starting from
  the matrix of empty cells.
\<close>

type_synonym snapshot = "(string \<Rightarrow> py_error + string) \<times> isis_rec"

definition ingest :: "VNode list \<Rightarrow> extract_state \<Rightarrow> snapshot \<Rightarrow> py_error + extract_state" where
  "ingest nodes acc snap =
     (case get_inf_adjs (snd snap) nodes (adj_martix acc) (next_uuid acc) of
        Inl e \<Rightarrow> Inl e
      | Inr st \<Rightarrow>
         (case get_inf_mac_by_adj (fst snap) (adjs st) of
            Inl e \<Rightarrow> Inl e
          | Inr node_adjs \<Rightarrow>
              Inr \<lparr>adjs = adjs acc @ node_adjs,
                   adj_martix = backfill_matrix node_adjs (adj_martix st),
                   next_uuid = next_uuid st\<rparr>))"

fun extract_all ::
  "VNode list \<Rightarrow> extract_state \<Rightarrow> snapshot list \<Rightarrow> py_error + extract_state" where
  "extract_all nodes acc [] = Inr acc"
| "extract_all nodes acc (snap # others) =
     (case ingest nodes acc snap of
        Inl e \<Rightarrow> Inl e
      | Inr acc' \<Rightarrow> extract_all nodes acc' others)"

definition main_extract :: "VNode list \<Rightarrow> nat \<Rightarrow> snapshot list \<Rightarrow> py_error + extract_state" where
  "main_extract nodes fresh_uuid snaps =
     extract_all nodes
       \<lparr>adjs = [], adj_martix = empty_matrix (length nodes), next_uuid = fresh_uuid\<rparr> snaps"

text \<open>The cell \<open>(i, j)\<close> of a matrix, for indices that are in range.\<close>

definition cell :: "adj_matrix \<Rightarrow> nat \<Rightarrow> nat \<Rightarrow> VEdge option" where
  "cell m i j = m ! i ! j"

definition square :: "nat \<Rightarrow> adj_matrix \<Rightarrow> bool" where
  "square n m = (length m = n \<and> list_all (\<lambda>row. length row = n) m)"

text \<open>
  A snapshot in which every adjacency record carries its \<open>sr-ipv4\<close> SID value.
\<close>

definition sid_values_present :: "isis_rec \<Rightarrow> bool" where
  "sid_values_present isis =
     list_all (\<lambda>ifc. case adjacency ifc of None \<Rightarrow> True | Some adj \<Rightarrow> sid_value adj \<noteq> None)
       (interfaces isis)"

text \<open>
  A matrix all of whose links carry identity tokens below \<open>u\<close>: they were built before the
  link that will draw the token \<open>u\<close>.
\<close>

definition uuids_below :: "nat \<Rightarrow> adj_matrix \<Rightarrow> bool" where
  "uuids_below u m =
     list_all (list_all (\<lambda>c. case c of None \<Rightarrow> True | Some e \<Rightarrow> edge_uuid e < u)) m"

text \<open>
  The first link of a list whose target is the node with index \<open>j\<close>, found as the code
  finds the index of a neighbour: by the target's system identifier.
\<close>

definition first_link_to :: "VNode list \<Rightarrow> VEdge list \<Rightarrow> nat \<Rightarrow> VEdge option" where
  "first_link_to nodes links j =
     find (\<lambda>ve. sys_to_idx nodes (system_id (snd (vertices ve))) = int j) links"

text \<open>The first link of a list from one given node to another.\<close>

definition first_link :: "VEdge list \<Rightarrow> VNode \<Rightarrow> VNode \<Rightarrow> VEdge option" where
  "first_link links a b = find (\<lambda>ve. vertices ve = (a, b)) links"

section \<open>main.py: Node-SIDs from the prefix SIDs\<close>

text \<open>
  \<open>sub in s\<close> for two strings: \<open>sub\<close> occurs in \<open>s\<close> as a run of consecutive characters.
\<close>

fun py_str_in :: "string \<Rightarrow> string \<Rightarrow> bool" where
  "py_str_in sub [] = (sub = [])"
| "py_str_in sub (c # cs) = (startswith (c # cs) sub \<or> py_str_in sub cs)"






section \<open>main.py: the path query\<close>

text \<open>
  The SPF block of \<open>main\<close>. \<open>src\<close> and \<open>dst\<close> are the command line's options (\<open>None\<close> when not
  given); \<open>shortest_path\<close> is the graph library's function on the assembled graph, which
  can raise. The block leaves \<open>spf_nodes\<close> and what it printed.
\<close>

datatype spf_report = No_query | Path_printed VNode VNode "VNode list" | Skipping_SPF

definition spf_block ::
  "(VNode \<Rightarrow> VNode \<Rightarrow> py_error + VNode list) \<Rightarrow> VNode list \<Rightarrow> string option \<Rightarrow> string option
     \<Rightarrow> py_error + (VNode list \<times> spf_report)" where
  "spf_block shortest_path nodes src dst =
     (case (src, dst) of
        (Some s, Some d) \<Rightarrow>
          (let src_idx = name_to_idx nodes s; dst_idx = name_to_idx nodes d
           in if src_idx \<noteq> - 1 \<and> dst_idx \<noteq> - 1 then
                (case py_getitem nodes src_idx of
                   Inl e \<Rightarrow> Inl e
                 | Inr a \<Rightarrow>
                (case py_getitem nodes dst_idx of
                   Inl e \<Rightarrow> Inl e
                 | Inr b \<Rightarrow>
                (case shortest_path a b of
                   Inl e \<Rightarrow> Inl e
                 | Inr spf_nodes \<Rightarrow> Inr (spf_nodes, Path_printed a b spf_nodes))))
              else Inr ([], Skipping_SPF))
      | _ \<Rightarrow> Inr ([], No_query))"

section \<open>main.py: drawing the edges\<close>

text \<open>
  \<open>str(n)\<close> for an integer: its decimal digits, with a minus sign when negative.
\<close>

definition digit_char :: "nat \<Rightarrow> char" where
  "digit_char d = ''0123456789'' ! d"

fun str_nat :: "nat \<Rightarrow> string" where
  "str_nat n = (if n < 10 then [digit_char n] else str_nat (n div 10) @ [digit_char (n mod 10)])"

declare str_nat.simps [simp del]

definition str_int :: "int \<Rightarrow> string" where
  "str_int i = (if i < 0 then CHR ''-'' # str_nat (nat (- i)) else str_nat (nat i))"

text \<open>
  The keys of \<open>edge_labels\<close> are tuples \<open>(u, v, inf_mac)\<close>. Tuples compare component by
  component with \<open>==\<close>, which on nodes is \<open>VNode.__eq__\<close>; equal nodes have equal hashes, so
  the dictionary finds a key exactly when an equal key is stored.
\<close>

type_synonym edge_key = "VNode \<times> VNode \<times> string"

definition node_eq :: "VNode \<Rightarrow> VNode \<Rightarrow> bool" where
  "node_eq a b = VNode_eq a (Obj_VNode b)"

fun key_eq :: "edge_key \<Rightarrow> edge_key \<Rightarrow> bool" where
  "key_eq (u, v, m) (u', v', m') = (node_eq u u' \<and> node_eq v v' \<and> m = m')"

fun pair_eq :: "VNode \<times> VNode \<Rightarrow> VNode \<times> VNode \<Rightarrow> bool" where
  "pair_eq (u, v) (u', v') = (node_eq u u' \<and> node_eq v v')"

text \<open>\<open>x in xs\<close> for the two visited lists.\<close>

fun key_in :: "edge_key \<Rightarrow> edge_key list \<Rightarrow> bool" where
  "key_in k [] = False"
| "key_in k (k' # ks) = (if key_eq k' k then True else key_in k ks)"

fun pair_in :: "VNode \<times> VNode \<Rightarrow> (VNode \<times> VNode) list \<Rightarrow> bool" where
  "pair_in p [] = False"
| "pair_in p (p' # ps) = (if pair_eq p' p then True else pair_in p ps)"

text \<open>
  The dictionary \<open>edge_labels\<close>, as the list of its items in insertion order: storing under
  a key that is present replaces the value and keeps the key's place.
\<close>

type_synonym edge_dict = "(edge_key \<times> edge_attrs) list"

fun dict_get :: "edge_dict \<Rightarrow> edge_key \<Rightarrow> edge_attrs option" where
  "dict_get [] k = None"
| "dict_get ((k', d) # kvs) k = (if key_eq k' k then Some d else dict_get kvs k)"

fun dict_set :: "edge_dict \<Rightarrow> edge_key \<Rightarrow> edge_attrs \<Rightarrow> edge_dict" where
  "dict_set [] k d = [(k, d)]"
| "dict_set ((k', d') # kvs) k d =
     (if key_eq k' k then (k', d) # kvs else (k', d') # dict_set kvs k d)"

text \<open>
  \<open>{(u, v, d['inf_mac']): d for u, v, d in net_DiGr.edges(data=True)}\<close>, from the edges in
  the order the graph yields them.
\<close>

definition edge_labels_of :: "nx_edge_t list \<Rightarrow> edge_dict" where
  "edge_labels_of edges =
     foldl (\<lambda>el (u, v, d). dict_set el (u, v, attr_inf_mac d) d) [] edges"

text \<open>
  What is drawn. A bidirectional unit is the two curved arrows of a pair of links with one
  text label per direction; \<open>Small_offset\<close> is the first pair's drawing (label offset 0.1,
  curvature 0.2, blue and red, with the plain black edge), \<open>Wide_offset\<close> the second
  parallel pair's (label offset 0.2, curvature 0.3, magenta and green). The positions are
  floating-point values of the layout and are not part of the model. \<open>Highlight\<close> is an
  edge of the route.
\<close>

datatype offset_variant = Small_offset | Wide_offset

datatype render_unit =
    Bidirectional offset_variant VNode VNode string string
  | Highlight VNode VNode

record draw_state =
  visited_adj :: "edge_key list"
  visited_pairs :: "(VNode \<times> VNode) list"
  drawn :: "render_unit list"

definition edge_lbl :: "edge_attrs \<Rightarrow> string" where
  "edge_lbl d = attr_inf_name d @ '' : '' @ str_int (attr_adj_sid d)"

text \<open>
  One round of the loop over the keys of \<open>edge_labels\<close>. In the \<open>else\<close> branch (no reverse
  link) the statement \<open>u2v = mid + np.array[dx, dy]\<close> subscripts the function \<open>np.array\<close>,
  which raises \<open>TypeError\<close> before the label is drawn or the key is marked visited.
\<close>

fun draw_step :: "edge_dict \<Rightarrow> draw_state \<Rightarrow> edge_key \<Rightarrow> py_error + draw_state" where
  "draw_step edge_labels st (u, v, m) =
     (if key_in (u, v, m) (visited_adj st) then Inr st
      else
        (case dict_get edge_labels (u, v, m) of
           None \<Rightarrow> Inl KeyError
         | Some d \<Rightarrow>
            (let snpa = attr_nei_snpa d;
                 u2v_edge_lbl = edge_lbl d
             in case dict_get edge_labels (v, u, snpa) of
                  None \<Rightarrow> Inl TypeError
                | Some nd \<Rightarrow>
                   (let v2u_edge_lbl = edge_lbl nd
                    in if pair_in (u, v) (visited_pairs st) then
                         (if pair_in (v, u) (visited_pairs st) then Inr st
                          else
                            Inr (st\<lparr>visited_pairs := visited_pairs st @ [(v, u)],
                                    drawn := drawn st @
                                      [Bidirectional Wide_offset u v u2v_edge_lbl v2u_edge_lbl]\<rparr>))
                       else
                         Inr (st\<lparr>visited_adj := visited_adj st @ [(u, v, m), (v, u, snpa)],
                                 visited_pairs := visited_pairs st @ [(u, v)],
                                 drawn := drawn st @
                                   [Bidirectional Small_offset u v u2v_edge_lbl v2u_edge_lbl]\<rparr>)))))"

fun draw_loop :: "edge_dict \<Rightarrow> draw_state \<Rightarrow> edge_key list \<Rightarrow> py_error + draw_state" where
  "draw_loop edge_labels st [] = Inr st"
| "draw_loop edge_labels st (k # ks) =
     (case draw_step edge_labels st k of
        Inl e \<Rightarrow> Inl e
      | Inr st' \<Rightarrow> draw_loop edge_labels st' ks)"

definition route_highlights :: "VNode list \<Rightarrow> render_unit list" where
  "route_highlights route =
     (if 2 \<le> length route
      then map (\<lambda>p. Highlight (route ! p) (route ! (p + 1))) [0 ..< length route - 1]
      else [])"

definition draw_init :: draw_state where
  "draw_init = \<lparr>visited_adj = [], visited_pairs = [], drawn = []\<rparr>"

text \<open>
  \<open>draw_edges\<close>: everything drawn, in order, or the exception that ends the call.
\<close>

definition draw_edges :: "nx_edge_t list \<Rightarrow> VNode list \<Rightarrow> py_error + render_unit list" where
  "draw_edges edges route =
     (let edge_labels = edge_labels_of edges
      in case draw_loop edge_labels draw_init (map fst edge_labels) of
           Inl e \<Rightarrow> Inl e
         | Inr st \<Rightarrow> Inr (drawn st @ route_highlights route))"

section \<open>Reading what was drawn\<close>

text \<open>
  The node pair that \<open>draw_edges\<close> appends to \<open>visited_pairs\<close> when it draws a unit:
  \<open>(u, v)\<close> with the small-offset drawing, \<open>(v, u)\<close> with the wide-offset one.
\<close>

fun unit_pair :: "render_unit \<Rightarrow> (VNode \<times> VNode) list" where
  "unit_pair (Bidirectional Small_offset u v a b) = [(u, v)]"
| "unit_pair (Bidirectional Wide_offset u v a b) = [(v, u)]"
| "unit_pair (Highlight u v) = []"

definition unit_pairs :: "render_unit list \<Rightarrow> (VNode \<times> VNode) list" where
  "unit_pairs ds = concat (map unit_pair ds)"

text \<open>A bidirectional unit between the nodes \<open>u\<close> and \<open>v\<close>, in either order.\<close>

fun between :: "VNode \<Rightarrow> VNode \<Rightarrow> render_unit \<Rightarrow> bool" where
  "between u v (Bidirectional w x y a b) = (pair_eq (x, y) (u, v) \<or> pair_eq (x, y) (v, u))"
| "between u v (Highlight x y) = False"

text \<open>
  The condition under which each unit of a drawing was drawn, read from the newest unit
  back: a small-offset unit for \<open>(u, v)\<close> when no earlier unit had appended \<open>(u, v)\<close>, a
  wide-offset unit when an earlier unit had appended \<open>(u, v)\<close> and none \<open>(v, u)\<close>.
\<close>

fun drawn_in_turn :: "render_unit list \<Rightarrow> bool" where
  "drawn_in_turn [] = True"
| "drawn_in_turn (Bidirectional Small_offset u v a b # earlier) =
     (\<not> pair_in (u, v) (unit_pairs earlier) \<and> drawn_in_turn earlier)"
| "drawn_in_turn (Bidirectional Wide_offset u v a b # earlier) =
     (pair_in (u, v) (unit_pairs earlier) \<and> \<not> pair_in (v, u) (unit_pairs earlier)
      \<and> drawn_in_turn earlier)"
| "drawn_in_turn (Highlight u v # earlier) = drawn_in_turn earlier"

text \<open>What holds of the loop's state after any number of rounds.\<close>

definition draw_inv :: "edge_dict \<Rightarrow> draw_state \<Rightarrow> bool" where
  "draw_inv el st \<longleftrightarrow>
     set (visited_pairs st) = set (unit_pairs (drawn st))
     \<and> drawn_in_turn (rev (drawn st))
     \<and> (\<forall>w u v a b. Bidirectional w u v a b \<in> set (drawn st) \<longrightarrow>
          (\<exists>m d nd. dict_get el (u, v, m) = Some d
             \<and> dict_get el (v, u, attr_nei_snpa d) = Some nd
             \<and> a = edge_lbl d \<and> b = edge_lbl nd))
     \<and> (\<forall>x y. Highlight x y \<notin> set (drawn st))"

section \<open>A two-router example\<close>

text \<open>
  Two routers joined by two parallel links, as \<open>main\<close> would see them: the node list, and
  interface records of R1 and R2.
\<close>

definition ex_R1 :: VNode where
  "ex_R1 = VNode_init 1 ''R1'' ''0000.0000.0001''"

definition ex_R2 :: VNode where
  "ex_R2 = VNode_init 2 ''R2'' ''0000.0000.0002''"

definition ex_nodes :: "VNode list" where
  "ex_nodes = [ex_R1, ex_R2]"

definition ex_ifc :: "string \<Rightarrow> string \<Rightarrow> string \<Rightarrow> int \<Rightarrow> interface_rec" where
  "ex_ifc ifname nbr snpa sid =
     \<lparr>interface_name = ifname,
      adjacency = Some \<lparr>oper_state = ''up'', nbr_system_id = nbr, snpa_address = snpa,
                        sid_value = Some sid\<rparr>\<rparr>"

definition ex_link :: "nat \<Rightarrow> VNode \<Rightarrow> VNode \<Rightarrow> int \<Rightarrow> string \<Rightarrow> string \<Rightarrow> VEdge" where
  "ex_link u a b sid ifname snpa =
     \<lparr>edge_uuid = u, vertices = (a, b), adj_sid = sid, inf_name = ifname, nei_snpa = snpa,
      inf_mac = None\<rparr>"

text \<open>Edge attributes for the example.\<close>

definition ex_attrs :: "string \<Rightarrow> int \<Rightarrow> string \<Rightarrow> string \<Rightarrow> edge_attrs" where
  "ex_attrs ifname sid mac snpa =
     \<lparr>attr_adj_sid = sid, attr_inf_name = ifname, attr_inf_mac = mac, attr_nei_snpa = snpa\<rparr>"

text \<open>
  For the example: a connection that gives one hardware address for every interface, and
  the snapshots of R1 (two parallel links to R2) and of R2 (one link to R1).
\<close>

definition ex_hw :: "string \<Rightarrow> string \<Rightarrow> py_error + string" where
  "ex_hw mac ifname = Inr mac"

definition ex_snap_R1 :: snapshot where
  "ex_snap_R1 =
     (ex_hw ''00:aa:00:00:00:01'',
      \<lparr>oper_system_id = ''0000.0000.0001'',
       interfaces = [ex_ifc ''to-R2-a'' ''0x000000000002'' ''0x00aa00000002'' 100,
                     ex_ifc ''to-R2-b'' ''0x000000000002'' ''0x00bb00000002'' 200]\<rparr>)"

definition ex_snap_R2 :: snapshot where
  "ex_snap_R2 =
     (ex_hw ''00:aa:00:00:00:02'',
      \<lparr>oper_system_id = ''0000.0000.0002'',
       interfaces = [ex_ifc ''to-R1-a'' ''0x000000000001'' ''0x00aa00000001'' 300]\<rparr>)"

definition ex_filled :: "nat \<Rightarrow> VNode \<Rightarrow> VNode \<Rightarrow> int \<Rightarrow> string \<Rightarrow> string \<Rightarrow> string \<Rightarrow> VEdge" where
  "ex_filled u a b sid ifname snpa mac = (ex_link u a b sid ifname snpa)\<lparr>inf_mac := Some mac\<rparr>"

section \<open>Node identity\<close>

lemma VNode_eq_iff:
  "VNode_eq a (Obj_VNode b) \<longleftrightarrow> uuid a = uuid b \<and> system_id a = system_id b"
  by (simp add: VNode_eq_def)

text \<open>
  C7. Two nodes are equal exactly when their identity tokens and their system identifier
  strings are equal (and a node equals no object of another class); the hash is a function
  of the identity token alone, so it does not change when the system identifier is set to
  another string; and two equal nodes have equal hashes, also after their system
  identifiers have been set (to \<open>s\<close> and \<open>t\<close>), as long as they still compare equal.
\<close>

theorem VNode_eq_hash:
  "(VNode_eq a (Obj_VNode b) \<longleftrightarrow> uuid a = uuid b \<and> system_id a = system_id b)
   \<and> \<not> VNode_eq a Obj_other
   \<and> VNode_hash h (set_system_id a s) = VNode_hash h a
   \<and> (uuid a = uuid b \<longrightarrow> VNode_hash h a = VNode_hash h b)
   \<and> (VNode_eq a (Obj_VNode b) \<longrightarrow> VNode_hash h a = VNode_hash h b)
   \<and> (VNode_eq (set_system_id a s) (Obj_VNode (set_system_id b t))
        \<longrightarrow> VNode_hash h (set_system_id a s) = VNode_hash h (set_system_id b t))"
  by (simp add: VNode_eq_def VNode_hash_def set_system_id_def)

theorem VNode_eq_hash_witness:
  "VNode_eq (VNode_init 7 ''R1'' ''0000.0000.0001'')
            (Obj_VNode (set_nsid (VNode_init 7 ''R1'' ''0000.0000.0001'') 20001))
   \<and> VNode_hash (\<lambda>u. int u mod 2305843009213693951) (VNode_init 7 ''R1'' ''0000.0000.0001'')
     = VNode_hash (\<lambda>u. int u mod 2305843009213693951)
         (set_nsid (VNode_init 7 ''R1'' ''0000.0000.0001'') 20001)
   \<and> \<not> VNode_eq (VNode_init 7 ''R1'' ''0000.0000.0001'')
            (Obj_VNode (set_system_id (VNode_init 7 ''R1'' ''0000.0000.0001'') ''0000.0000.0002''))
   \<and> VNode_hash (\<lambda>u. int u mod 2305843009213693951)
        (set_system_id (VNode_init 7 ''R1'' ''0000.0000.0001'') ''0000.0000.0002'') = 7"
  using VNode_eq_hash [of "VNode_init 7 ''R1'' ''0000.0000.0001''"
      "set_nsid (VNode_init 7 ''R1'' ''0000.0000.0001'') 20001"
      "\<lambda>u. int u mod 2305843009213693951" "''0000.0000.0002''" "''0000.0000.0002''"]
  by (simp add: VNode_eq_def VNode_hash_def VNode_init_def set_nsid_def set_system_id_def)

section \<open>Writing the interface MAC\<close>

lemma startswith_0x: "startswith s ''0x'' \<longleftrightarrow> take 2 s = ''0x''"
  by (simp add: startswith_def numeral_2_eq_2)

lemma set_inf_mac_ok_iff:
  "set_inf_mac e s = Inr (e\<lparr>inf_mac := Some s\<rparr>) \<longleftrightarrow> length s = 14 \<and> take 2 s = ''0x''"
  by (simp add: set_inf_mac_def startswith_0x)

lemma set_inf_mac_fail_iff:
  "set_inf_mac e s = Inl AssertionError \<longleftrightarrow> \<not> (length s = 14 \<and> take 2 s = ''0x'')"
  by (simp add: set_inf_mac_def startswith_0x)

text \<open>
  The setter accepts a string that is not in the specification's format: upper-case
  digits pass, since only the length and the prefix are asserted.
\<close>

theorem set_inf_mac_not_spec_format:
  "set_inf_mac (VEdge_init 5 (VNode_init 1 ''R1'' ''0000.0000.0001'')
                 (VNode_init 2 ''R2'' ''0000.0000.0002'') 524287) ''0xAABBCCDDEEFF''
     = Inr ((VEdge_init 5 (VNode_init 1 ''R1'' ''0000.0000.0001'')
                 (VNode_init 2 ''R2'' ''0000.0000.0002'') 524287)\<lparr>inf_mac := Some ''0xAABBCCDDEEFF''\<rparr>)
   \<and> \<not> spec_mac_format ''0xAABBCCDDEEFF''"
  by (simp add: set_inf_mac_def startswith_0x spec_mac_format_def lower_hex_digit_def)

text \<open>
  C8 (as amended). The write of the interface MAC succeeds, storing the string, exactly
  when the string has length 14 and starts with \<open>0x\<close>; otherwise it raises
  \<open>AssertionError\<close> and stores nothing. Every string in the specification's format
  (\<open>0x\<close> and 12 lowercase hexadecimal digits) is accepted.
\<close>

theorem set_inf_mac_length_prefix:
  "(set_inf_mac e s = Inr (e\<lparr>inf_mac := Some s\<rparr>) \<longleftrightarrow> length s = 14 \<and> take 2 s = ''0x'')
   \<and> (set_inf_mac e s = Inl AssertionError \<longleftrightarrow> \<not> (length s = 14 \<and> take 2 s = ''0x''))
   \<and> (spec_mac_format s \<longrightarrow> set_inf_mac e s = Inr (e\<lparr>inf_mac := Some s\<rparr>))"
  by (simp add: set_inf_mac_ok_iff set_inf_mac_fail_iff spec_mac_format_def)

theorem set_inf_mac_length_prefix_witness:
  "spec_mac_format ''0x0123456789ab''
   \<and> set_inf_mac (VEdge_init 5 (VNode_init 1 ''R1'' ''0000.0000.0001'')
                 (VNode_init 2 ''R2'' ''0000.0000.0002'') 524287) ''0x0123456789ab''
     = Inr ((VEdge_init 5 (VNode_init 1 ''R1'' ''0000.0000.0001'')
                 (VNode_init 2 ''R2'' ''0000.0000.0002'') 524287)\<lparr>inf_mac := Some ''0x0123456789ab''\<rparr>)"
  using set_inf_mac_length_prefix [of "VEdge_init 5 (VNode_init 1 ''R1'' ''0000.0000.0001'')
                 (VNode_init 2 ''R2'' ''0000.0000.0002'') 524287" "''0x0123456789ab''"]
  by (simp add: spec_mac_format_def lower_hex_digit_def)

section \<open>Normalised system identifiers\<close>

lemma replace_0x_no_x: "CHR ''x'' \<notin> set s \<Longrightarrow> replace_0x s = s"
  by (induction s rule: replace_0x.induct) auto

lemma replace_0x_prefix: "replace_0x (''0x'' @ s) = replace_0x s"
  by simp

lemma concat_slices: "concat (map (\<lambda>k. take 4 (drop (4 * k) s)) [0 ..< n]) = take (4 * n) s"
proof (induction n)
  case 0
  show ?case by simp
next
  case (Suc n)
  have "take (4 * n) s @ take 4 (drop (4 * n) s) = take (4 * n + 4) s"
    by (simp add: take_add)
  with Suc show ?case by (simp add: add.commute)
qed

lemma concat_chunks4: "concat (chunks4 s) = s"
proof -
  have "length s \<le> 4 * ((length s + 3) div 4)" by arith
  then show ?thesis by (simp add: chunks4_def concat_slices)
qed

lemma length_chunks4: "length (chunks4 s) = (length s + 3) div 4"
  by (simp add: chunks4_def)

lemma nth_chunks4:
  "k < length (chunks4 s) \<Longrightarrow> chunks4 s ! k = take 4 (drop (4 * k) s)"
  by (simp add: chunks4_def)

lemma length_nth_chunks4:
  "k < length (chunks4 s) \<Longrightarrow> length (chunks4 s ! k) = (if Suc k < length (chunks4 s) then 4 else length s - 4 * k)"
  by (auto simp add: chunks4_def)

lemma filter_join:
  "filter P sep = [] \<Longrightarrow> filter P (join sep ps) = concat (map (filter P) ps)"
  by (induction sep ps rule: join.induct) simp_all

lemma hex_digit_not_x: "hex_digit c \<Longrightarrow> c \<noteq> CHR ''x'' \<and> c \<noteq> CHR ''.''"
  by (auto simp add: hex_digit_def)

lemma filter_dots_chunks4:
  assumes "CHR ''.'' \<notin> set s"
  shows "concat (map (filter (\<lambda>c. c \<noteq> CHR ''.'')) (chunks4 s)) = s"
proof -
  have "concat (map (filter (\<lambda>c. c \<noteq> CHR ''.'')) (chunks4 s))
        = filter (\<lambda>c. c \<noteq> CHR ''.'') (concat (chunks4 s))"
    by (simp add: filter_concat)
  also have "\<dots> = s" using assms by (auto simp add: concat_chunks4 filter_id_conv)
  finally show ?thesis .
qed

lemma normalise_example: "normalise_nbr_id ''0x000000000001'' = ''0000.0000.0001''"
  by (simp add: normalise_nbr_id_def chunks4_def upt_rec)

text \<open>
  C3. For a raw identifier \<open>0x\<close> followed by hexadecimal digits \<open>hs\<close>, normalisation
  removes the prefix and joins with \<open>.\<close> the slices of \<open>hs\<close> of 4 characters (the last one
  holds what is left); the groups concatenated are \<open>hs\<close> again, so without its dots the
  result is \<open>hs\<close>: no digit is lost or added. In particular
  \<open>0x000000000001\<close> becomes \<open>0000.0000.0001\<close>.
\<close>

theorem normalise_nbr_id_hex:
  assumes "list_all hex_digit hs"
  shows "normalise_nbr_id (''0x'' @ hs) = join ''.'' (chunks4 hs)
     \<and> concat (chunks4 hs) = hs
     \<and> filter (\<lambda>c. c \<noteq> CHR ''.'') (normalise_nbr_id (''0x'' @ hs)) = hs
     \<and> length (chunks4 hs) = (length hs + 3) div 4
     \<and> (\<forall>k < length (chunks4 hs).
          chunks4 hs ! k = take 4 (drop (4 * k) hs)
          \<and> length (chunks4 hs ! k) = (if Suc k < length (chunks4 hs) then 4 else length hs - 4 * k))
     \<and> normalise_nbr_id ''0x000000000001'' = ''0000.0000.0001''"
proof -
  from assms have nox: "CHR ''x'' \<notin> set hs" and nodot: "CHR ''.'' \<notin> set hs"
    using hex_digit_not_x by (auto simp add: list_all_iff)
  have n: "normalise_nbr_id (''0x'' @ hs) = join ''.'' (chunks4 hs)"
    using nox by (simp add: normalise_nbr_id_def replace_0x_no_x)
  have f: "filter (\<lambda>c. c \<noteq> CHR ''.'') (normalise_nbr_id (''0x'' @ hs)) = hs"
    unfolding n using nodot by (simp add: filter_join filter_dots_chunks4)
  show ?thesis
    using n f concat_chunks4 [of hs] length_chunks4 [of hs] nth_chunks4 [of _ hs]
      length_nth_chunks4 [of _ hs] normalise_example
    by simp
qed

theorem normalise_nbr_id_hex_witness:
  "list_all hex_digit ''1921680a0b0c''
   \<and> normalise_nbr_id ''0x1921680a0b0c'' = ''1921.680a.0b0c''
   \<and> filter (\<lambda>c. c \<noteq> CHR ''.'') (normalise_nbr_id ''0x1921680a0b0c'') = ''1921680a0b0c''"
proof -
  have h: "list_all hex_digit ''1921680a0b0c''" by (simp add: hex_digit_def)
  have c: "join ''.'' (chunks4 ''1921680a0b0c'') = ''1921.680a.0b0c''"
    by (simp add: chunks4_def upt_rec)
  show ?thesis using h c normalise_nbr_id_hex [OF h] by simp
qed

section \<open>Resolving names\<close>

lemma name_to_idx_from_miss:
  "nm \<notin> name ` set nodes \<Longrightarrow> name_to_idx_from idx nodes nm = - 1"
  by (induction nodes arbitrary: idx) auto

lemma name_to_idx_from_hit:
  "nm \<in> name ` set nodes \<Longrightarrow>
   \<exists>k < length nodes. name_to_idx_from idx nodes nm = idx + int k
      \<and> name (nodes ! k) = nm \<and> (\<forall>j < k. name (nodes ! j) \<noteq> nm)"
proof (induction nodes arbitrary: idx)
  case Nil
  then show ?case by simp
next
  case (Cons node rest)
  show ?case
  proof (cases "name node = nm")
    case True
    then show ?thesis by (intro exI [of _ 0]) simp
  next
    case False
    with Cons.prems have "nm \<in> name ` set rest" by auto
    from Cons.IH [OF this, of "idx + 1"] obtain k where k: "k < length rest"
      "name_to_idx_from (idx + 1) rest nm = idx + 1 + int k"
      "name (rest ! k) = nm" "\<forall>j < k. name (rest ! j) \<noteq> nm" by blast
    have "\<forall>j < Suc k. name ((node # rest) ! j) \<noteq> nm"
      using k(4) False by (auto simp add: nth_Cons split: nat.splits)
    with k False show ?thesis by (intro exI [of _ "Suc k"]) simp
  qed
qed

lemma name_to_idx_unresolved:
  "name_to_idx nodes q = - 1 \<longleftrightarrow> strip q \<notin> name ` set nodes"
proof
  assume a: "name_to_idx nodes q = - 1"
  show "strip q \<notin> name ` set nodes"
  proof
    assume "strip q \<in> name ` set nodes"
    from name_to_idx_from_hit [OF this, of 0] a show False
      by (auto simp add: name_to_idx_def)
  qed
next
  assume "strip q \<notin> name ` set nodes"
  then show "name_to_idx nodes q = - 1"
    by (simp add: name_to_idx_def name_to_idx_from_miss)
qed

lemma name_to_idx_first_match:
  "strip q \<in> name ` set nodes \<Longrightarrow>
   \<exists>k < length nodes. name_to_idx nodes q = int k
      \<and> name (nodes ! k) = strip q \<and> (\<forall>j < k. name (nodes ! j) \<noteq> strip q)"
  using name_to_idx_from_hit [of "strip q" nodes 0] by (simp add: name_to_idx_def)

text \<open>
  C9. A query name resolves to the first node whose name is the query with its
  surrounding white space removed, and to \<open>-1\<close> when there is none. When the source or the
  destination name does not resolve, the SPF block raises nothing, whatever the path
  function would do: it leaves the path empty and reports that SPF is skipped, and the
  run goes on from there.
\<close>

theorem spf_block_unresolved:
  "(name_to_idx nodes q = - 1 \<longleftrightarrow> strip q \<notin> name ` set nodes)
   \<and> (strip q \<in> name ` set nodes \<longrightarrow>
        (\<exists>k < length nodes. name_to_idx nodes q = int k
           \<and> name (nodes ! k) = strip q \<and> (\<forall>j < k. name (nodes ! j) \<noteq> strip q)))
   \<and> (name_to_idx nodes s = - 1 \<or> name_to_idx nodes d = - 1 \<longrightarrow>
        spf_block shortest_path nodes (Some s) (Some d) = Inr ([], Skipping_SPF))
   \<and> (strip s \<notin> name ` set nodes \<or> strip d \<notin> name ` set nodes \<longrightarrow>
        spf_block shortest_path nodes (Some s) (Some d) = Inr ([], Skipping_SPF))"
proof -
  have skip: "name_to_idx nodes s = - 1 \<or> name_to_idx nodes d = - 1 \<Longrightarrow>
      spf_block shortest_path nodes (Some s) (Some d) = Inr ([], Skipping_SPF)"
    by (auto simp add: spf_block_def Let_def)
  show ?thesis
    using skip name_to_idx_unresolved [of nodes q] name_to_idx_unresolved [of nodes s]
      name_to_idx_unresolved [of nodes d] name_to_idx_first_match [of q nodes]
    by blast
qed

lemma strip_example: "strip '' R2 '' = ''R2''" "strip ''R9'' = ''R9''"
  by (simp_all add: strip_def py_isspace_def)

theorem spf_block_unresolved_witness:
  "name_to_idx [VNode_init 1 ''R1'' ''0000.0000.0001'', VNode_init 2 ''R2'' ''0000.0000.0002'',
                VNode_init 3 ''R2'' ''0000.0000.0003''] '' R2 '' = 1
   \<and> name_to_idx [VNode_init 1 ''R1'' ''0000.0000.0001'', VNode_init 2 ''R2'' ''0000.0000.0002'',
                VNode_init 3 ''R2'' ''0000.0000.0003''] ''R9'' = - 1
   \<and> spf_block (\<lambda>a b. Inl KeyError)
        [VNode_init 1 ''R1'' ''0000.0000.0001'', VNode_init 2 ''R2'' ''0000.0000.0002'',
         VNode_init 3 ''R2'' ''0000.0000.0003''] (Some '' R2 '') (Some ''R9'')
      = Inr ([], Skipping_SPF)"
proof -
  let ?nodes = "[VNode_init 1 ''R1'' ''0000.0000.0001'', VNode_init 2 ''R2'' ''0000.0000.0002'',
                VNode_init 3 ''R2'' ''0000.0000.0003'']"
  have a: "name_to_idx ?nodes '' R2 '' = 1"
    by (simp add: name_to_idx_def strip_example VNode_init_def)
  have b: "name_to_idx ?nodes ''R9'' = - 1"
    by (simp add: name_to_idx_def strip_example VNode_init_def)
  show ?thesis
    using a b spf_block_unresolved [of ?nodes "''R9''" "'' R2 ''" "''R9''" "\<lambda>a b. Inl KeyError"]
    by simp
qed

section \<open>Node-SIDs\<close>









text \<open>
  The flag test is a substring test: a flags string with several names, or with a longer
  name that contains \<open>bit-n\<close>, passes it.
\<close>

lemma bit_n_substring:
  "py_str_in ''bit-n'' ''bit-r bit-n''" "py_str_in ''bit-n'' ''bit-np''"
  "\<not> py_str_in ''bit-n'' ''bit-r bit-v''"
  by (simp_all add: startswith_def)





section \<open>Index lookups\<close>

lemma sys_id_in_nodes_iff: "sys_id_in_nodes nodes sid \<longleftrightarrow> sid \<in> system_id ` set nodes"
  by (induction nodes) auto

lemma sys_to_idx_from_miss:
  "\<not> sys_id_in_nodes nodes sid \<Longrightarrow> sys_to_idx_from idx nodes sid = - 1"
  by (induction nodes arbitrary: idx) (auto split: if_splits)

lemma sys_to_idx_from_hit:
  "sys_id_in_nodes nodes sid \<Longrightarrow>
   \<exists>k < length nodes. sys_to_idx_from idx nodes sid = idx + int k \<and> system_id (nodes ! k) = sid"
proof (induction nodes arbitrary: idx)
  case Nil
  then show ?case by simp
next
  case (Cons node rest)
  show ?case
  proof (cases "system_id node = sid")
    case True
    then show ?thesis by (intro exI [of _ 0]) simp
  next
    case False
    with Cons.prems have "sys_id_in_nodes rest sid" by simp
    from Cons.IH [OF this, of "idx + 1"] obtain k where
      "k < length rest" "sys_to_idx_from (idx + 1) rest sid = idx + 1 + int k"
      "system_id (rest ! k) = sid" by blast
    with False show ?thesis by (intro exI [of _ "Suc k"]) simp
  qed
qed

lemma sys_to_idx_miss: "\<not> sys_id_in_nodes nodes sid \<Longrightarrow> sys_to_idx nodes sid = - 1"
  by (simp add: sys_to_idx_def sys_to_idx_from_miss)

lemma sys_to_idx_hit:
  "sys_id_in_nodes nodes sid \<Longrightarrow>
   \<exists>k < length nodes. sys_to_idx nodes sid = int k \<and> system_id (nodes ! k) = sid"
  using sys_to_idx_from_hit [of nodes sid 0] by (simp add: sys_to_idx_def)

lemma py_index_bound: "py_index i n = Some k \<Longrightarrow> k < n"
  by (auto simp add: py_index_def split: if_splits)

lemma py_index_nat: "k < n \<Longrightarrow> py_index (int k) n = Some k"
  by (simp add: py_index_def)

lemma py_index_minus_one: "0 < n \<Longrightarrow> py_index (- 1) n = Some (n - 1)"
  by (auto simp add: py_index_def)

lemma py_getitem_nat: "k < length xs \<Longrightarrow> py_getitem xs (int k) = Inr (xs ! k)"
  by (simp add: py_getitem_def py_index_nat)

lemma py_getitem_minus_one: "xs \<noteq> [] \<Longrightarrow> py_getitem xs (- 1) = Inr (last xs)"
  by (simp add: py_getitem_def py_index_minus_one last_conv_nth)

lemma py_getitem_minus_one_empty: "py_getitem [] (- 1) = Inl IndexError"
  by (simp add: py_getitem_def py_index_def)

section \<open>The matrix write\<close>

lemma matrix_write_cases:
  assumes "py_getitem m si = Inr row" "py_getitem row di = Inr None"
    "py_setitem row di (Some ve) = Inr row'" "py_setitem m si row' = Inr m'"
  shows "cell m' i j = cell m i j \<or> (cell m i j = None \<and> cell m' i j = Some ve)"
proof -
  from assms(1) obtain k where k: "py_index si (length m) = Some k" "row = m ! k"
    by (auto simp add: py_getitem_def split: option.splits)
  from assms(2) obtain k' where k': "py_index di (length row) = Some k'" "row ! k' = None"
    by (auto simp add: py_getitem_def split: option.splits)
  from assms(3) k' have row': "row' = row[k' := Some ve]"
    by (simp add: py_setitem_def)
  from assms(4) k have m': "m' = m[k := row']"
    by (simp add: py_setitem_def)
  have kb: "k < length m" using k(1) by (rule py_index_bound)
  have kb': "k' < length row" using k'(1) by (rule py_index_bound)
  show ?thesis
  proof (cases "i = k")
    case True
    show ?thesis
    proof (cases "j = k'")
      case True
      with \<open>i = k\<close> kb kb' k k' show ?thesis by (simp add: cell_def m' row')
    next
      case False
      with \<open>i = k\<close> kb k show ?thesis by (simp add: cell_def m' row')
    qed
  next
    case False
    then show ?thesis by (simp add: cell_def m')
  qed
qed

lemma matrix_write_square:
  assumes "py_getitem m si = Inr row" "py_setitem row di x = Inr row'"
    "py_setitem m si row' = Inr m'" "square n m"
  shows "square n m'"
proof -
  from assms(1) obtain k where k: "py_index si (length m) = Some k" "row = m ! k"
    by (auto simp add: py_getitem_def split: option.splits)
  from assms(2) obtain k' where row': "row' = row[k' := x]"
    by (auto simp add: py_setitem_def split: option.splits)
  from assms(3) k have m': "m' = m[k := row']"
    by (simp add: py_setitem_def)
  have kb: "k < length m" using k(1) by (rule py_index_bound)
  from assms(4) kb k(2) have lr: "length row = n"
    by (simp add: square_def list_all_length)
  have "length (m' ! a) = n" if "a < length m" for a
  proof (cases "a = k")
    case True
    with that lr show ?thesis by (simp add: m' row')
  next
    case False
    with that assms(4) show ?thesis by (simp add: m' square_def list_all_length)
  qed
  with assms(4) show ?thesis
    by (simp add: square_def list_all_length m')
qed

section \<open>Recording one adjacency\<close>

lemma matrix_store_cell:
  assumes "matrix_store m si di ve = Inr m'"
  shows "cell m' i j = cell m i j \<or> (cell m i j = None \<and> cell m' i j = Some ve)"
proof -
  from assms obtain row cur where g: "py_getitem m si = Inr row" "py_getitem row di = Inr cur"
    by (auto simp add: matrix_store_def split: sum.splits)
  show ?thesis
  proof (cases "cur = None")
    case True
    with assms g obtain row' where "py_setitem row di (Some ve) = Inr row'"
      "py_setitem m si row' = Inr m'"
      by (auto simp add: matrix_store_def split: sum.splits)
    with g True show ?thesis using matrix_write_cases by blast
  next
    case False
    with assms g have "m' = m" by (simp add: matrix_store_def)
    then show ?thesis by simp
  qed
qed

lemma matrix_store_square:
  assumes "matrix_store m si di ve = Inr m'" "square n m"
  shows "square n m'"
proof -
  from assms(1) obtain row cur where g: "py_getitem m si = Inr row" "py_getitem row di = Inr cur"
    by (auto simp add: matrix_store_def split: sum.splits)
  show ?thesis
  proof (cases "cur = None")
    case True
    with assms g obtain row' where "py_setitem row di (Some ve) = Inr row'"
      "py_setitem m si row' = Inr m'"
      by (auto simp add: matrix_store_def split: sum.splits)
    with g assms(2) show ?thesis using matrix_write_square by blast
  next
    case False
    with assms g have "m' = m" by (simp add: matrix_store_def)
    with assms(2) show ?thesis by simp
  qed
qed

lemma matrix_store_total:
  assumes "square n m" "py_index si n = Some k" "py_index di n = Some k'"
  shows "\<exists>m'. matrix_store m si di ve = Inr m'"
proof -
  have kb: "k < n" "k' < n" using assms(2,3) by (auto dest: py_index_bound)
  with assms(1) have len: "length m = n" "length (m ! k) = n"
    by (simp_all add: square_def list_all_length)
  show ?thesis
    using assms(2,3) len
    by (simp add: matrix_store_def py_getitem_def py_setitem_def)
qed

lemma record_adjacency_adjs:
  assumes "record_adjacency nodes node_id nbr_id ifname adj st = Inr st'"
  shows "\<exists>sid src_node dst_node.
     sid_value adj = Some sid
     \<and> py_getitem nodes (sys_to_idx nodes node_id) = Inr src_node
     \<and> py_getitem nodes (sys_to_idx nodes nbr_id) = Inr dst_node
     \<and> adjs st' = adjs st @ [set_nei_snpa (set_inf_name
          (VEdge_init (next_uuid st) src_node dst_node sid) ifname) (snpa_address adj)]
     \<and> next_uuid st' = Suc (next_uuid st)
     \<and> matrix_store (adj_martix st) (sys_to_idx nodes node_id) (sys_to_idx nodes nbr_id)
          (set_nei_snpa (set_inf_name
            (VEdge_init (next_uuid st) src_node dst_node sid) ifname) (snpa_address adj))
        = Inr (adj_martix st')"
  using assms
  by (auto simp add: record_adjacency_def Let_def split: option.splits sum.splits)

lemma record_adjacency_cell:
  assumes "record_adjacency nodes node_id nbr_id ifname adj st = Inr st'"
  shows "cell (adj_martix st') i j = cell (adj_martix st) i j
     \<or> (cell (adj_martix st) i j = None \<and> cell (adj_martix st') i j = Some (last (adjs st')))"
proof -
  from record_adjacency_adjs [OF assms] obtain ve where
    "adjs st' = adjs st @ [ve]"
    "matrix_store (adj_martix st) (sys_to_idx nodes node_id) (sys_to_idx nodes nbr_id) ve
       = Inr (adj_martix st')"
    by blast
  then show ?thesis using matrix_store_cell [of "adj_martix st" _ _ ve "adj_martix st'" i j]
    by simp
qed

lemma record_adjacency_square:
  assumes "record_adjacency nodes node_id nbr_id ifname adj st = Inr st'"
    "square n (adj_martix st)"
  shows "square n (adj_martix st')"
  using record_adjacency_adjs [OF assms(1)] assms(2) matrix_store_square by blast

section \<open>The loop over the interfaces\<close>

lemma inf_step_cases:
  "inf_step nodes node_id st ifc = Inr st \<or>
   (\<exists>adj. adjacency ifc = Some adj \<and> oper_state adj = ''up''
      \<and> sys_id_in_nodes nodes (normalise_nbr_id (nbr_system_id adj))
      \<and> inf_step nodes node_id st ifc
          = record_adjacency nodes node_id (normalise_nbr_id (nbr_system_id adj))
              (interface_name ifc) adj st)"
  by (auto simp add: inf_step_def Let_def split: option.splits)

lemma inf_step_cell:
  assumes "inf_step nodes node_id st ifc = Inr st'" "cell (adj_martix st) i j = Some e"
  shows "cell (adj_martix st') i j = Some e"
  using inf_step_cases [of nodes node_id st ifc] assms record_adjacency_cell [of nodes node_id _ _ _ st st' i j]
  by auto

lemma inf_loop_cell:
  "inf_loop nodes node_id st infs = Inr st' \<Longrightarrow> cell (adj_martix st) i j = Some e
   \<Longrightarrow> cell (adj_martix st') i j = Some e"
proof (induction infs arbitrary: st)
  case Nil
  then show ?case by simp
next
  case (Cons ifc infs)
  from Cons.prems(1) obtain st1 where s: "inf_step nodes node_id st ifc = Inr st1"
    "inf_loop nodes node_id st1 infs = Inr st'"
    by (auto split: sum.splits)
  from inf_step_cell [OF s(1) Cons.prems(2)] have "cell (adj_martix st1) i j = Some e" .
  from Cons.IH [OF s(2) this] show ?case .
qed

lemma get_inf_adjs_cell:
  "get_inf_adjs isis nodes m u = Inr st \<Longrightarrow> cell m i j = Some e
   \<Longrightarrow> cell (adj_martix st) i j = Some e"
  using inf_loop_cell [of nodes "oper_system_id isis" "\<lparr>adjs = [], adj_martix = m, next_uuid = u\<rparr>"
      "interfaces isis" st i j e]
  by (simp add: get_inf_adjs_def)

lemma inf_loop_append:
  "inf_loop nodes node_id st (xs @ ys)
     = (case inf_loop nodes node_id st xs of
          Inl e \<Rightarrow> Inl e
        | Inr st' \<Rightarrow> inf_loop nodes node_id st' ys)"
  by (induction xs arbitrary: st) (auto split: sum.splits)

section \<open>Example extractions\<close>

lemma ex_normalise: "normalise_nbr_id ''0x000000000002'' = ''0000.0000.0002''"
  "normalise_nbr_id ''0x000000000001'' = ''0000.0000.0001''"
  "normalise_nbr_id ''0x000000000009'' = ''0000.0000.0009''"
  by (simp_all add: normalise_nbr_id_def chunks4_def upt_rec)

lemma ex_first_link:
  "get_inf_adjs \<lparr>oper_system_id = ''0000.0000.0001'',
                  interfaces = [ex_ifc ''to-R2-a'' ''0x000000000002'' ''0x00aa00000002'' 100]\<rparr>
     ex_nodes (empty_matrix 2) 0
   = Inr \<lparr>adjs = [ex_link 0 ex_R1 ex_R2 100 ''to-R2-a'' ''0x00aa00000002''],
          adj_martix = [[None, Some (ex_link 0 ex_R1 ex_R2 100 ''to-R2-a'' ''0x00aa00000002'')],
                        [None, None]],
          next_uuid = 1\<rparr>"
  by (simp add: Let_def get_inf_adjs_def inf_step_def record_adjacency_def matrix_store_def ex_ifc_def
      ex_nodes_def ex_R1_def ex_R2_def VNode_init_def ex_normalise sys_to_idx_def
      py_getitem_def py_setitem_def py_index_def empty_matrix_def ex_link_def VEdge_init_def
      set_inf_name_def set_nei_snpa_def numeral_2_eq_2)

section \<open>Neighbours outside the node list\<close>

lemma inf_step_unknown:
  assumes "adjacency ifc = Some adj" "oper_state adj = ''up''"
    "\<not> sys_id_in_nodes nodes (normalise_nbr_id (nbr_system_id adj))"
  shows "inf_step nodes node_id st ifc = Inr st"
  using assms by (simp add: inf_step_def)

lemma inf_loop_skip:
  assumes "\<And>st. inf_step nodes node_id st ifc = Inr st"
  shows "inf_loop nodes node_id st0 (pre @ ifc # post) = inf_loop nodes node_id st0 (pre @ post)"
  by (simp add: inf_loop_append assms split: sum.splits)

text \<open>
  C5. An interface whose adjacency is up and whose normalised neighbour identifier is the
  system identifier of no node in the list leaves the loop's state as it found it: no link
  is appended and the matrix is the same. A snapshot holding only such an interface
  yields no links and the matrix it was given, and such an interface anywhere in a
  snapshot can be removed without changing the result of the extraction.
\<close>

theorem unknown_neighbour_skipped:
  assumes "adjacency ifc = Some adj" and "oper_state adj = ''up''"
    and "normalise_nbr_id (nbr_system_id adj) \<notin> system_id ` set nodes"
  shows "\<not> sys_id_in_nodes nodes (normalise_nbr_id (nbr_system_id adj))
     \<and> inf_step nodes node_id st ifc = Inr st
     \<and> get_inf_adjs \<lparr>oper_system_id = node_id, interfaces = [ifc]\<rparr> nodes m u
         = Inr \<lparr>adjs = [], adj_martix = m, next_uuid = u\<rparr>
     \<and> get_inf_adjs \<lparr>oper_system_id = node_id, interfaces = pre @ ifc # post\<rparr> nodes m u
         = get_inf_adjs \<lparr>oper_system_id = node_id, interfaces = pre @ post\<rparr> nodes m u"
proof -
  from assms(3) have n: "\<not> sys_id_in_nodes nodes (normalise_nbr_id (nbr_system_id adj))"
    by (simp add: sys_id_in_nodes_iff)
  have s: "inf_step nodes node_id st' ifc = Inr st'" for st'
    using assms(1,2) n by (rule inf_step_unknown)
  have l: "inf_loop nodes node_id st0 (pre @ ifc # post) = inf_loop nodes node_id st0 (pre @ post)"
    for st0 using s by (rule inf_loop_skip)
  show ?thesis using n s l by (simp add: get_inf_adjs_def)
qed

theorem unknown_neighbour_skipped_witness:
  "get_inf_adjs \<lparr>oper_system_id = ''0000.0000.0001'',
                  interfaces = [ex_ifc ''to-R9'' ''0x000000000009'' ''0x00aa00000009'' 300]\<rparr>
     ex_nodes (empty_matrix 2) 0
   = Inr \<lparr>adjs = [], adj_martix = empty_matrix 2, next_uuid = 0\<rparr>
   \<and> get_inf_adjs \<lparr>oper_system_id = ''0000.0000.0001'',
                  interfaces = [] @ ex_ifc ''to-R9'' ''0x000000000009'' ''0x00aa00000009'' 300
                      # [ex_ifc ''to-R2-a'' ''0x000000000002'' ''0x00aa00000002'' 100]\<rparr>
     ex_nodes (empty_matrix 2) 0
   = Inr \<lparr>adjs = [ex_link 0 ex_R1 ex_R2 100 ''to-R2-a'' ''0x00aa00000002''],
          adj_martix = [[None, Some (ex_link 0 ex_R1 ex_R2 100 ''to-R2-a'' ''0x00aa00000002'')],
                        [None, None]],
          next_uuid = 1\<rparr>"
proof -
  let ?adj = "\<lparr>oper_state = ''up'', nbr_system_id = ''0x000000000009'',
      snpa_address = ''0x00aa00000009'', sid_value = Some 300\<rparr>"
  let ?ifc = "ex_ifc ''to-R9'' ''0x000000000009'' ''0x00aa00000009'' 300"
  have a: "adjacency ?ifc = Some ?adj" by (simp add: ex_ifc_def)
  have b: "oper_state ?adj = ''up''" by simp
  have c: "normalise_nbr_id (nbr_system_id ?adj) \<notin> system_id ` set ex_nodes"
    by (simp add: ex_normalise ex_nodes_def ex_R1_def ex_R2_def VNode_init_def)
  from unknown_neighbour_skipped [OF a b c, of "''0000.0000.0001''" _ "empty_matrix 2" 0 "[]"
      "[ex_ifc ''to-R2-a'' ''0x000000000002'' ''0x00aa00000002'' 100]"]
    ex_first_link
  show ?thesis by simp
qed

section \<open>A snapshot of a system that is not in the node list\<close>

lemma last_not_local:
  assumes "\<not> sys_id_in_nodes nodes node_id" "nodes \<noteq> []"
  shows "system_id (last nodes) \<noteq> node_id"
  using assms by (auto simp add: sys_id_in_nodes_iff)

lemma record_adjacency_absent_src:
  assumes "\<not> sys_id_in_nodes nodes node_id"
    "record_adjacency nodes node_id nbr_id ifname adj st = Inr st'"
  shows "nodes \<noteq> [] \<and> (\<exists>ve. adjs st' = adjs st @ [ve] \<and> fst (vertices ve) = last nodes)"
proof -
  from record_adjacency_adjs [OF assms(2)] obtain sid src_node dst_node where r:
    "py_getitem nodes (sys_to_idx nodes node_id) = Inr src_node"
    "adjs st' = adjs st @ [set_nei_snpa (set_inf_name
          (VEdge_init (next_uuid st) src_node dst_node sid) ifname) (snpa_address adj)]"
    by blast
  from r(1) assms(1) have g: "py_getitem nodes (- 1) = Inr src_node"
    by (simp add: sys_to_idx_miss)
  then have ne: "nodes \<noteq> []" by (auto simp add: py_getitem_minus_one_empty)
  with g have "src_node = last nodes" by (simp add: py_getitem_minus_one)
  with r(2) ne show ?thesis
    by (simp add: set_nei_snpa_def set_inf_name_def VEdge_init_def)
qed

lemma inf_step_absent_src:
  assumes "\<not> sys_id_in_nodes nodes node_id" "inf_step nodes node_id st ifc = Inr st'"
    "\<forall>e \<in> set (adjs st). nodes \<noteq> [] \<and> fst (vertices e) = last nodes"
  shows "\<forall>e \<in> set (adjs st'). nodes \<noteq> [] \<and> fst (vertices e) = last nodes"
proof -
  from inf_step_cases [of nodes node_id st ifc] show ?thesis
  proof
    assume "inf_step nodes node_id st ifc = Inr st"
    with assms(2,3) show ?thesis by simp
  next
    assume "\<exists>adj. adjacency ifc = Some adj \<and> oper_state adj = ''up''
      \<and> sys_id_in_nodes nodes (normalise_nbr_id (nbr_system_id adj))
      \<and> inf_step nodes node_id st ifc
          = record_adjacency nodes node_id (normalise_nbr_id (nbr_system_id adj))
              (interface_name ifc) adj st"
    then obtain adj where "inf_step nodes node_id st ifc
          = record_adjacency nodes node_id (normalise_nbr_id (nbr_system_id adj))
              (interface_name ifc) adj st" by blast
    with assms(2) have "record_adjacency nodes node_id (normalise_nbr_id (nbr_system_id adj))
              (interface_name ifc) adj st = Inr st'" by simp
    from record_adjacency_absent_src [OF assms(1) this] obtain ve where
      "nodes \<noteq> []" "adjs st' = adjs st @ [ve]" "fst (vertices ve) = last nodes" by blast
    with assms(3) show ?thesis by auto
  qed
qed

lemma inf_loop_absent_src:
  "\<not> sys_id_in_nodes nodes node_id \<Longrightarrow> inf_loop nodes node_id st infs = Inr st'
   \<Longrightarrow> \<forall>e \<in> set (adjs st). nodes \<noteq> [] \<and> fst (vertices e) = last nodes
   \<Longrightarrow> \<forall>e \<in> set (adjs st'). nodes \<noteq> [] \<and> fst (vertices e) = last nodes"
proof (induction infs arbitrary: st)
  case Nil
  then show ?case by simp
next
  case (Cons ifc infs)
  from Cons.prems(2) obtain st1 where s: "inf_step nodes node_id st ifc = Inr st1"
    "inf_loop nodes node_id st1 infs = Inr st'"
    by (auto split: sum.splits)
  from inf_step_absent_src [OF Cons.prems(1) s(1) Cons.prems(3)]
  have "\<forall>e \<in> set (adjs st1). nodes \<noteq> [] \<and> fst (vertices e) = last nodes" .
  from Cons.IH [OF Cons.prems(1) s(2) this] show ?case .
qed

lemma sys_to_idx_py_index:
  assumes "nodes \<noteq> []"
  shows "\<exists>k. py_index (sys_to_idx nodes sid) (length nodes) = Some k"
proof (cases "sys_id_in_nodes nodes sid")
  case True
  from sys_to_idx_hit [OF this] show ?thesis by (auto simp add: py_index_nat)
next
  case False
  with assms show ?thesis by (simp add: sys_to_idx_miss py_index_minus_one)
qed

lemma py_getitem_total: "py_index i (length xs) = Some k \<Longrightarrow> py_getitem xs i = Inr (xs ! k)"
  by (simp add: py_getitem_def)

lemma record_adjacency_total:
  assumes "sys_id_in_nodes nodes nbr_id" "sid_value adj \<noteq> None"
    "square (length nodes) (adj_martix st)"
  shows "\<exists>st'. record_adjacency nodes node_id nbr_id ifname adj st = Inr st'"
proof -
  from assms(1) have ne: "nodes \<noteq> []" by auto
  from sys_to_idx_py_index [OF ne] obtain k k' where
    k: "py_index (sys_to_idx nodes node_id) (length nodes) = Some k"
    and k': "py_index (sys_to_idx nodes nbr_id) (length nodes) = Some k'" by blast
  from assms(2) obtain sid where sid: "sid_value adj = Some sid" by auto
  from matrix_store_total [OF assms(3) k k'] obtain m' where
    "matrix_store (adj_martix st) (sys_to_idx nodes node_id) (sys_to_idx nodes nbr_id)
       (set_nei_snpa (set_inf_name (VEdge_init (next_uuid st) (nodes ! k) (nodes ! k') sid)
          ifname) (snpa_address adj)) = Inr m'" by blast
  then show ?thesis
    by (simp add: record_adjacency_def Let_def sid py_getitem_total [OF k] py_getitem_total [OF k'])
qed

lemma inf_step_total:
  assumes "case adjacency ifc of None \<Rightarrow> True | Some adj \<Rightarrow> sid_value adj \<noteq> None"
    "square (length nodes) (adj_martix st)"
  shows "\<exists>st'. inf_step nodes node_id st ifc = Inr st' \<and> square (length nodes) (adj_martix st')"
proof -
  from inf_step_cases [of nodes node_id st ifc] show ?thesis
  proof
    assume "inf_step nodes node_id st ifc = Inr st"
    with assms(2) show ?thesis by simp
  next
    assume "\<exists>adj. adjacency ifc = Some adj \<and> oper_state adj = ''up''
      \<and> sys_id_in_nodes nodes (normalise_nbr_id (nbr_system_id adj))
      \<and> inf_step nodes node_id st ifc
          = record_adjacency nodes node_id (normalise_nbr_id (nbr_system_id adj))
              (interface_name ifc) adj st"
    then obtain adj where a: "adjacency ifc = Some adj"
      "sys_id_in_nodes nodes (normalise_nbr_id (nbr_system_id adj))"
      "inf_step nodes node_id st ifc
          = record_adjacency nodes node_id (normalise_nbr_id (nbr_system_id adj))
              (interface_name ifc) adj st" by blast
    from assms(1) a(1) have "sid_value adj \<noteq> None" by simp
    from record_adjacency_total [OF a(2) this assms(2)] obtain st' where
      r: "record_adjacency nodes node_id (normalise_nbr_id (nbr_system_id adj))
              (interface_name ifc) adj st = Inr st'" by blast
    from record_adjacency_square [OF r assms(2)] r a(3) show ?thesis by simp
  qed
qed

lemma inf_loop_total:
  "list_all (\<lambda>ifc. case adjacency ifc of None \<Rightarrow> True | Some adj \<Rightarrow> sid_value adj \<noteq> None) infs
   \<Longrightarrow> square (length nodes) (adj_martix st)
   \<Longrightarrow> \<exists>st'. inf_loop nodes node_id st infs = Inr st' \<and> square (length nodes) (adj_martix st')"
proof (induction infs arbitrary: st)
  case Nil
  then show ?case by simp
next
  case (Cons ifc infs)
  from Cons.prems(1) have
    h: "case adjacency ifc of None \<Rightarrow> True | Some adj \<Rightarrow> sid_value adj \<noteq> None"
    and t: "list_all (\<lambda>ifc. case adjacency ifc of None \<Rightarrow> True | Some adj \<Rightarrow> sid_value adj \<noteq> None) infs"
    by simp_all
  from inf_step_total [OF h Cons.prems(2)] obtain st1 where
    s: "inf_step nodes node_id st ifc = Inr st1" "square (length nodes) (adj_martix st1)"
    by blast
  from Cons.IH [OF t s(2)] s(1) show ?case by simp
qed

lemma get_inf_adjs_total:
  assumes "sid_values_present isis" "square (length nodes) m"
  shows "\<exists>st. get_inf_adjs isis nodes m u = Inr st \<and> square (length nodes) (adj_martix st)"
  using assms inf_loop_total [of "interfaces isis" nodes
      "\<lparr>adjs = [], adj_martix = m, next_uuid = u\<rparr>" "oper_system_id isis"]
  by (simp add: get_inf_adjs_def sid_values_present_def)

text \<open>
  C10. The extraction never tests whether the snapshot's own system identifier is in the
  node list. When it is not, \<open>sys_to_idx\<close> returns \<open>-1\<close>, index \<open>-1\<close> of a non-empty node list
  is its last node, and every link the call returns has that last node as its source,
  whose system identifier is not the snapshot's. No exception comes of it: on a square
  matrix of the node list's size, and with a SID value in every adjacency record, the call
  returns its links.
\<close>

theorem absent_local_id_last_node:
  assumes "oper_system_id isis \<notin> system_id ` set nodes"
  shows "sys_to_idx nodes (oper_system_id isis) = - 1
     \<and> (nodes \<noteq> [] \<longrightarrow> py_getitem nodes (- 1) = Inr (last nodes))
     \<and> (get_inf_adjs isis nodes m u = Inr st \<longrightarrow>
          (\<forall>e \<in> set (adjs st).
             fst (vertices e) = last nodes
             \<and> system_id (fst (vertices e)) \<noteq> oper_system_id isis))
     \<and> (sid_values_present isis \<and> square (length nodes) m \<longrightarrow>
          (\<exists>st'. get_inf_adjs isis nodes m u = Inr st'))"
proof -
  from assms have n: "\<not> sys_id_in_nodes nodes (oper_system_id isis)"
    by (simp add: sys_id_in_nodes_iff)
  have a: "sys_to_idx nodes (oper_system_id isis) = - 1"
    using n by (rule sys_to_idx_miss)
  have c: "\<forall>e \<in> set (adjs st).
             fst (vertices e) = last nodes
             \<and> system_id (fst (vertices e)) \<noteq> oper_system_id isis"
    if r: "get_inf_adjs isis nodes m u = Inr st"
  proof -
    from r have "inf_loop nodes (oper_system_id isis)
        \<lparr>adjs = [], adj_martix = m, next_uuid = u\<rparr> (interfaces isis) = Inr st"
      by (simp add: get_inf_adjs_def)
    from inf_loop_absent_src [OF n this]
    have "\<forall>e \<in> set (adjs st). nodes \<noteq> [] \<and> fst (vertices e) = last nodes" by simp
    with last_not_local [OF n] show ?thesis by auto
  qed
  have d: "\<exists>st'. get_inf_adjs isis nodes m u = Inr st'"
    if "sid_values_present isis \<and> square (length nodes) m"
    using that get_inf_adjs_total [of isis nodes m u] by blast
  show ?thesis using a c d py_getitem_minus_one [of nodes] by blast
qed

lemma ex_foreign_link:
  "get_inf_adjs \<lparr>oper_system_id = ''0000.0000.0007'',
                  interfaces = [ex_ifc ''to-R1'' ''0x000000000001'' ''0x00aa00000001'' 700]\<rparr>
     ex_nodes (empty_matrix 2) 0
   = Inr \<lparr>adjs = [ex_link 0 ex_R2 ex_R1 700 ''to-R1'' ''0x00aa00000001''],
          adj_martix = [[None, None],
                        [Some (ex_link 0 ex_R2 ex_R1 700 ''to-R1'' ''0x00aa00000001''), None]],
          next_uuid = 1\<rparr>"
  by (simp add: Let_def get_inf_adjs_def inf_step_def record_adjacency_def matrix_store_def ex_ifc_def
      ex_nodes_def ex_R1_def ex_R2_def VNode_init_def ex_normalise sys_to_idx_def
      py_getitem_def py_setitem_def py_index_def empty_matrix_def ex_link_def VEdge_init_def
      set_inf_name_def set_nei_snpa_def numeral_2_eq_2)

theorem absent_local_id_last_node_witness:
  "sys_to_idx ex_nodes ''0000.0000.0007'' = - 1
   \<and> get_inf_adjs \<lparr>oper_system_id = ''0000.0000.0007'',
                  interfaces = [ex_ifc ''to-R1'' ''0x000000000001'' ''0x00aa00000001'' 700]\<rparr>
     ex_nodes (empty_matrix 2) 0
   = Inr \<lparr>adjs = [ex_link 0 ex_R2 ex_R1 700 ''to-R1'' ''0x00aa00000001''],
          adj_martix = [[None, None],
                        [Some (ex_link 0 ex_R2 ex_R1 700 ''to-R1'' ''0x00aa00000001''), None]],
          next_uuid = 1\<rparr>
   \<and> fst (vertices (ex_link 0 ex_R2 ex_R1 700 ''to-R1'' ''0x00aa00000001'')) = last ex_nodes
   \<and> system_id (last ex_nodes) = ''0000.0000.0002''"
proof -
  let ?isis = "\<lparr>oper_system_id = ''0000.0000.0007'',
                  interfaces = [ex_ifc ''to-R1'' ''0x000000000001'' ''0x00aa00000001'' 700]\<rparr>"
  have h: "oper_system_id ?isis \<notin> system_id ` set ex_nodes"
    by (simp add: ex_nodes_def ex_R1_def ex_R2_def VNode_init_def)
  have l: "system_id (last ex_nodes) = ''0000.0000.0002''"
    by (simp add: ex_nodes_def ex_R2_def VNode_init_def)
  from absent_local_id_last_node [OF h, of "empty_matrix 2" 0
      "\<lparr>adjs = [ex_link 0 ex_R2 ex_R1 700 ''to-R1'' ''0x00aa00000001''],
          adj_martix = [[None, None],
                        [Some (ex_link 0 ex_R2 ex_R1 700 ''to-R1'' ''0x00aa00000001''), None]],
          next_uuid = 1\<rparr>"]
    ex_foreign_link l
  show ?thesis by simp
qed

section \<open>Pairing the links\<close>

lemma node_eq_refl: "node_eq a a"
  by (simp add: node_eq_def VNode_eq_def)

lemma node_eq_sym: "node_eq a b \<longleftrightarrow> node_eq b a"
  by (auto simp add: node_eq_def VNode_eq_def)

lemma node_eq_trans: "node_eq a b \<Longrightarrow> node_eq b c \<Longrightarrow> node_eq a c"
  by (simp add: node_eq_def VNode_eq_def)

lemma draw_pair:
  assumes "\<not> node_eq A B" "attr_nei_snpa d1 = attr_inf_mac d2"
  shows "draw_edges [(A, B, d1), (B, A, d2)] route
     = Inr (Bidirectional Small_offset A B (edge_lbl d1) (edge_lbl d2) # route_highlights route)"
  using assms
  by (simp add: draw_edges_def edge_labels_of_def draw_init_def node_eq_refl Let_def)

lemma draw_two_pairs:
  assumes "\<not> node_eq A B"
    "attr_nei_snpa d1 = attr_inf_mac d2" "attr_nei_snpa d3 = attr_inf_mac d4"
    "attr_nei_snpa d4 = attr_inf_mac d3"
    "attr_inf_mac d1 \<noteq> attr_inf_mac d3" "attr_inf_mac d2 \<noteq> attr_inf_mac d4"
  shows "draw_edges [(A, B, d1), (A, B, d3), (B, A, d2), (B, A, d4)] route
     = Inr ([Bidirectional Small_offset A B (edge_lbl d1) (edge_lbl d2),
             Bidirectional Wide_offset A B (edge_lbl d3) (edge_lbl d4)] @ route_highlights route)"
proof -
  from assms(1) have ne: "\<not> node_eq B A" using node_eq_sym by blast
  show ?thesis
    using assms ne
    by (simp add: draw_edges_def edge_labels_of_def draw_init_def node_eq_refl Let_def)
qed

lemma draw_two_pairs_other_order:
  assumes "\<not> node_eq A B"
    "attr_nei_snpa d1 = attr_inf_mac d2" "attr_nei_snpa d3 = attr_inf_mac d4"
    "attr_nei_snpa d4 = attr_inf_mac d3"
    "attr_inf_mac d1 \<noteq> attr_inf_mac d3" "attr_inf_mac d2 \<noteq> attr_inf_mac d4"
  shows "draw_edges [(A, B, d1), (A, B, d3), (B, A, d4), (B, A, d2)] route
     = Inr ([Bidirectional Small_offset A B (edge_lbl d1) (edge_lbl d2),
             Bidirectional Wide_offset A B (edge_lbl d3) (edge_lbl d4)] @ route_highlights route)"
proof -
  from assms(1) have ne: "\<not> node_eq B A" using node_eq_sym by blast
  show ?thesis
    using assms ne
    by (simp add: draw_edges_def edge_labels_of_def draw_init_def node_eq_refl Let_def)
qed

lemma draw_three_pairs:
  assumes "\<not> node_eq A B"
    "attr_nei_snpa d1 = attr_inf_mac d2" "attr_nei_snpa d3 = attr_inf_mac d4"
    "attr_nei_snpa d4 = attr_inf_mac d3" "attr_nei_snpa d5 = attr_inf_mac d6"
    "attr_nei_snpa d6 = attr_inf_mac d5"
    "attr_inf_mac d1 \<noteq> attr_inf_mac d3" "attr_inf_mac d1 \<noteq> attr_inf_mac d5"
    "attr_inf_mac d3 \<noteq> attr_inf_mac d5"
    "attr_inf_mac d2 \<noteq> attr_inf_mac d4" "attr_inf_mac d2 \<noteq> attr_inf_mac d6"
    "attr_inf_mac d4 \<noteq> attr_inf_mac d6"
  shows "draw_edges [(A, B, d1), (A, B, d3), (A, B, d5), (B, A, d2), (B, A, d4), (B, A, d6)] route
     = Inr ([Bidirectional Small_offset A B (edge_lbl d1) (edge_lbl d2),
             Bidirectional Wide_offset A B (edge_lbl d3) (edge_lbl d4)] @ route_highlights route)"
proof -
  from assms(1) have ne: "\<not> node_eq B A" using node_eq_sym by blast
  show ?thesis
    using assms ne
    by (simp add: draw_edges_def edge_labels_of_def draw_init_def node_eq_refl Let_def)
qed

lemma draw_pair_and_single:
  assumes "\<not> node_eq A B"
    "attr_nei_snpa d1 = attr_inf_mac d2"
    "attr_inf_mac d1 \<noteq> attr_inf_mac d3" "attr_nei_snpa d3 \<noteq> attr_inf_mac d2"
  shows "draw_edges [(A, B, d1), (A, B, d3), (B, A, d2)] route = Inl TypeError"
proof -
  from assms(1) have ne: "\<not> node_eq B A" using node_eq_sym by blast
  show ?thesis
    using assms ne
    by (simp add: draw_edges_def edge_labels_of_def draw_init_def node_eq_refl Let_def)
qed

lemma draw_single:
  assumes "\<not> (node_eq u v \<and> attr_nei_snpa d = attr_inf_mac d)"
  shows "draw_edges [(u, v, d)] route = Inl TypeError"
  using assms node_eq_sym [of u v]
  by (auto simp add: draw_edges_def edge_labels_of_def draw_init_def node_eq_refl Let_def)

section \<open>The order of the drawn units\<close>

lemma pair_eq_refl: "pair_eq p p"
  by (cases p) (simp add: node_eq_refl)

lemma pair_eq_sym: "pair_eq p q \<longleftrightarrow> pair_eq q p"
  using node_eq_sym by (cases p, cases q) auto

lemma pair_eq_trans: "pair_eq p q \<Longrightarrow> pair_eq q r \<Longrightarrow> pair_eq p r"
  using node_eq_trans by (cases p, cases q, cases r) auto

lemma pair_eq_swap: "pair_eq (x, y) (u, v) \<longleftrightarrow> pair_eq (y, x) (v, u)"
  by auto

lemma pair_in_iff: "pair_in p ps \<longleftrightarrow> (\<exists>q \<in> set ps. pair_eq q p)"
  by (induction ps) auto

lemma pair_in_cong: "set ps = set qs \<Longrightarrow> pair_in p ps = pair_in p qs"
  by (simp add: pair_in_iff)

lemma pair_in_eq: "pair_eq p q \<Longrightarrow> pair_in p ps = pair_in q ps"
  using pair_eq_trans pair_eq_sym unfolding pair_in_iff by blast

lemma pair_in_Cons: "pair_in p (q # ps) \<longleftrightarrow> pair_eq q p \<or> pair_in p ps"
  by simp

lemma pair_in_append: "pair_in p (ps @ qs) \<longleftrightarrow> pair_in p ps \<or> pair_in p qs"
  by (auto simp add: pair_in_iff)

lemma unit_pairs_simps:
  "unit_pairs [] = []"
  "unit_pairs (e # ds) = unit_pair e @ unit_pairs ds"
  "unit_pairs (ds @ es) = unit_pairs ds @ unit_pairs es"
  by (simp_all add: unit_pairs_def)

lemma set_unit_pairs_rev: "set (unit_pairs (rev ds)) = set (unit_pairs ds)"
  by (simp add: unit_pairs_def)

lemma draw_step_outcomes:
  assumes "draw_step el st k = Inr st'"
  shows "st' = st
    \<or> (\<exists>u v m d nd. k = (u, v, m) \<and> dict_get el (u, v, m) = Some d
          \<and> dict_get el (v, u, attr_nei_snpa d) = Some nd
          \<and> pair_in (u, v) (visited_pairs st) \<and> \<not> pair_in (v, u) (visited_pairs st)
          \<and> visited_pairs st' = visited_pairs st @ [(v, u)]
          \<and> drawn st' = drawn st @ [Bidirectional Wide_offset u v (edge_lbl d) (edge_lbl nd)])
    \<or> (\<exists>u v m d nd. k = (u, v, m) \<and> dict_get el (u, v, m) = Some d
          \<and> dict_get el (v, u, attr_nei_snpa d) = Some nd
          \<and> \<not> pair_in (u, v) (visited_pairs st)
          \<and> visited_pairs st' = visited_pairs st @ [(u, v)]
          \<and> drawn st' = drawn st @ [Bidirectional Small_offset u v (edge_lbl d) (edge_lbl nd)])"
proof -
  obtain u v m where k: "k = (u, v, m)" by (cases k) auto
  show ?thesis
    using assms unfolding k
    by (auto simp add: Let_def split: if_splits option.splits)
qed

lemma draw_inv_init: "draw_inv el draw_init"
  by (simp add: draw_inv_def draw_init_def unit_pairs_def)

lemma draw_step_inv:
  assumes "draw_step el st k = Inr st'" "draw_inv el st"
  shows "draw_inv el st'"
proof -
  from assms(2) have vp: "set (visited_pairs st) = set (unit_pairs (drawn st))"
    by (simp add: draw_inv_def)
  have pin: "pair_in p (unit_pairs (rev (drawn st))) = pair_in p (visited_pairs st)" for p
    by (rule pair_in_cong) (simp add: set_unit_pairs_rev vp)
  from draw_step_outcomes [OF assms(1)] show ?thesis
  proof (elim disjE exE conjE)
    assume "st' = st"
    with assms(2) show ?thesis by simp
  next
    fix u v m d nd
    assume "dict_get el (u, v, m) = Some d" "dict_get el (v, u, attr_nei_snpa d) = Some nd"
      "pair_in (u, v) (visited_pairs st)" "\<not> pair_in (v, u) (visited_pairs st)"
      "visited_pairs st' = visited_pairs st @ [(v, u)]"
      "drawn st' = drawn st @ [Bidirectional Wide_offset u v (edge_lbl d) (edge_lbl nd)]"
    with assms(2) vp show ?thesis
      by (auto simp add: draw_inv_def unit_pairs_simps pin)
  next
    fix u v m d nd
    assume "dict_get el (u, v, m) = Some d" "dict_get el (v, u, attr_nei_snpa d) = Some nd"
      "\<not> pair_in (u, v) (visited_pairs st)"
      "visited_pairs st' = visited_pairs st @ [(u, v)]"
      "drawn st' = drawn st @ [Bidirectional Small_offset u v (edge_lbl d) (edge_lbl nd)]"
    with assms(2) vp show ?thesis
      by (auto simp add: draw_inv_def unit_pairs_simps pin)
  qed
qed

lemma draw_loop_inv:
  "draw_loop el st ks = Inr st' \<Longrightarrow> draw_inv el st \<Longrightarrow> draw_inv el st'"
proof (induction ks arbitrary: st)
  case Nil
  then show ?case by simp
next
  case (Cons k ks)
  from Cons.prems(1) obtain st1 where s: "draw_step el st k = Inr st1"
    "draw_loop el st1 ks = Inr st'"
    by (auto split: sum.splits)
  from draw_step_inv [OF s(1) Cons.prems(2)] have "draw_inv el st1" .
  from Cons.IH [OF s(2) this] show ?case .
qed

lemma no_pair_no_unit:
  "\<not> pair_in (u, v) (unit_pairs ds) \<Longrightarrow> \<not> pair_in (v, u) (unit_pairs ds)
   \<Longrightarrow> filter (between u v) ds = []"
proof (induction ds)
  case Nil
  then show ?case by simp
next
  case (Cons e ds)
  show ?case
  proof (cases e)
    case (Highlight x y)
    with Cons show ?thesis by (simp add: unit_pairs_simps)
  next
    case (Bidirectional w x y a b)
    show ?thesis
    proof (cases w)
      case Small_offset
      with Bidirectional Cons show ?thesis
        by (auto simp add: unit_pairs_simps pair_in_Cons simp del: pair_in.simps)
    next
      case Wide_offset
      with Bidirectional Cons show ?thesis
        by (auto simp add: unit_pairs_simps pair_in_Cons simp del: pair_in.simps)
    qed
  qed
qed

lemma one_small_unit_before:
  "drawn_in_turn ds \<Longrightarrow> pair_in (u, v) (unit_pairs ds) \<Longrightarrow> \<not> pair_in (v, u) (unit_pairs ds)
   \<Longrightarrow> \<exists>x y a b. filter (between u v) ds = [Bidirectional Small_offset x y a b]
         \<and> node_eq x u \<and> node_eq y v"
proof (induction ds rule: drawn_in_turn.induct)
  case 1
  then show ?case by (simp add: unit_pairs_simps)
next
  case (2 x y a b earlier)
  from "2.prems" have fresh: "\<not> pair_in (x, y) (unit_pairs earlier)"
    and turn: "drawn_in_turn earlier" by simp_all
  from "2.prems"(3) have nrev: "\<not> pair_eq (x, y) (v, u)"
    and nrev': "\<not> pair_in (v, u) (unit_pairs earlier)"
    by (auto simp add: unit_pairs_simps pair_in_Cons simp del: pair_in.simps)
  show ?case
  proof (cases "pair_eq (x, y) (u, v)")
    case True
    with fresh have "\<not> pair_in (u, v) (unit_pairs earlier)"
      using pair_in_eq [of "(x, y)" "(u, v)"] by simp
    from no_pair_no_unit [OF this nrev'] True show ?thesis by simp
  next
    case False
    with "2.prems"(2) have "pair_in (u, v) (unit_pairs earlier)"
      by (auto simp add: unit_pairs_simps pair_in_Cons simp del: pair_in.simps)
    from "2.IH" [OF turn this nrev'] False nrev show ?thesis by auto
  qed
next
  case (3 x y a b earlier)
  from "3.prems" have had: "pair_in (x, y) (unit_pairs earlier)"
    and turn: "drawn_in_turn earlier" by simp_all
  from "3.prems"(3) have nrev: "\<not> pair_eq (y, x) (v, u)"
    and nrev': "\<not> pair_in (v, u) (unit_pairs earlier)"
    by (auto simp add: unit_pairs_simps pair_in_Cons simp del: pair_in.simps)
  have nfwd: "\<not> pair_eq (y, x) (u, v)"
  proof
    assume "pair_eq (y, x) (u, v)"
    then have "pair_eq (x, y) (v, u)" by simp
    with had have "pair_in (v, u) (unit_pairs earlier)"
      using pair_in_eq [of "(x, y)" "(v, u)"] by simp
    with nrev' show False by simp
  qed
  with "3.prems"(2) have "pair_in (u, v) (unit_pairs earlier)"
    by (auto simp add: unit_pairs_simps pair_in_Cons simp del: pair_in.simps)
  from "3.IH" [OF turn this nrev'] nfwd nrev show ?case by auto
next
  case (4 x y earlier)
  then show ?case by (simp add: unit_pairs_simps)
qed

lemma drawn_in_turn_suffix: "drawn_in_turn (xs @ ys) \<Longrightarrow> drawn_in_turn ys"
proof (induction xs)
  case Nil
  then show ?case by simp
next
  case (Cons e xs)
  then show ?case
  proof (cases e)
    case (Highlight x y)
    with Cons show ?thesis by simp
  next
    case (Bidirectional w x y a b)
    with Cons show ?thesis by (cases w) simp_all
  qed
qed

lemma drawn_in_turn_highlights:
  "drawn_in_turn (map (\<lambda>p. Highlight (f p) (g p)) ps @ ds) = drawn_in_turn ds"
  by (induction ps) simp_all

lemma drawn_in_turn_route:
  "drawn_in_turn (rev (ds @ route_highlights route)) = drawn_in_turn (rev ds)"
  by (simp add: route_highlights_def rev_map drawn_in_turn_highlights)

lemma draw_edges_Inr:
  assumes "draw_edges edges route = Inr out"
  obtains st where "draw_inv (edge_labels_of edges) st" "out = drawn st @ route_highlights route"
proof -
  from assms obtain st where
    l: "draw_loop (edge_labels_of edges) draw_init (map fst (edge_labels_of edges)) = Inr st"
    and o: "out = drawn st @ route_highlights route"
    by (auto simp add: draw_edges_def Let_def split: sum.splits)
  from draw_loop_inv [OF l draw_inv_init] o that show ?thesis by blast
qed

lemma wide_after_one_small:
  assumes "draw_edges edges route = Inr out"
    "out = pre @ Bidirectional Wide_offset u v a b # post"
  shows "\<exists>x y a' b'. filter (between u v) pre = [Bidirectional Small_offset x y a' b']
         \<and> node_eq x u \<and> node_eq y v"
proof -
  from assms(1) obtain st where inv: "draw_inv (edge_labels_of edges) st"
    and o: "out = drawn st @ route_highlights route" by (rule draw_edges_Inr)
  from inv have "drawn_in_turn (rev (drawn st))" by (simp add: draw_inv_def)
  then have "drawn_in_turn (rev out)" by (simp only: o drawn_in_turn_route)
  then have "drawn_in_turn (rev post @ Bidirectional Wide_offset u v a b # rev pre)"
    by (simp add: assms(2))
  then have "drawn_in_turn (Bidirectional Wide_offset u v a b # rev pre)"
    by (rule drawn_in_turn_suffix)
  then have "drawn_in_turn (rev pre)" "pair_in (u, v) (unit_pairs (rev pre))"
    "\<not> pair_in (v, u) (unit_pairs (rev pre))" by simp_all
  from one_small_unit_before [OF this] obtain x y a' b' where
    f: "filter (between u v) (rev pre) = [Bidirectional Small_offset x y a' b']"
    and n: "node_eq x u" "node_eq y v" by blast
  from f have "rev (filter (between u v) pre) = [Bidirectional Small_offset x y a' b']"
    by (simp add: rev_filter)
  then have "filter (between u v) pre = [Bidirectional Small_offset x y a' b']"
    by (simp add: rev_singleton_conv)
  with n show ?thesis by blast
qed

lemma units_have_both_directions:
  assumes "draw_edges edges route = Inr out" "Bidirectional w u v a b \<in> set out"
  shows "\<exists>m d nd. dict_get (edge_labels_of edges) (u, v, m) = Some d
           \<and> dict_get (edge_labels_of edges) (v, u, attr_nei_snpa d) = Some nd
           \<and> a = edge_lbl d \<and> b = edge_lbl nd"
proof -
  from assms(1) obtain st where inv: "draw_inv (edge_labels_of edges) st"
    and o: "out = drawn st @ route_highlights route" by (rule draw_edges_Inr)
  from assms(2) o have "Bidirectional w u v a b \<in> set (drawn st)"
    by (auto simp add: route_highlights_def)
  with inv show ?thesis unfolding draw_inv_def by blast
qed

lemma one_direction_step:
  assumes "dict_get el (u, v, m) = Some d" "dict_get el (v, u, attr_nei_snpa d) = None"
  shows "draw_step el st (u, v, m) = (if key_in (u, v, m) (visited_adj st) then Inr st else Inl TypeError)"
  using assms by simp

section \<open>Paired links, parallel pairs and links in one direction\<close>

text \<open>
  C2. \<open>A\<close> and \<open>B\<close> are two different nodes; \<open>d1 .. d6\<close> are the attributes of links
  \<open>A \<rightarrow> B\<close> (\<open>d1\<close>, \<open>d3\<close>, \<open>d5\<close>) and \<open>B \<rightarrow> A\<close> (\<open>d2\<close>, \<open>d4\<close>, \<open>d6\<close>), paired by the rule that
  each side's neighbour SNPA is the other side's interface MAC, with different MACs on
  each side; the graph yields the edges grouped by source node.
  \<^item> One forward and one reverse link give one small-offset bidirectional unit, with the
    forward link's label and the reverse link's label.
  \<^item> With a second pair, the second pair is one wide-offset unit, drawn after the first
    (in either order of the two reverse links).
  \<^item> With a third pair, the drawing is that of two pairs: the third is dropped and
    nothing is raised.
  \<^item> A second forward link \<open>d7\<close> that has no reverse link, met after the first pair was
    drawn, is not drawn with the wide offset: its round raises.
  \<^item> In any drawing that \<open>draw_edges\<close> returns, before a wide-offset unit for \<open>(u, v)\<close>
    exactly one unit between \<open>u\<close> and \<open>v\<close> was drawn, the small-offset unit of that same
    ordering.
  \<^item> Every bidirectional unit of a returned drawing, so every wide-offset one, has a
    forward entry and its reverse entry in \<open>edge_labels\<close>; the round of a key without a
    reverse entry either skips a visited key or raises, and never draws.
\<close>

theorem link_pairing:
  assumes "\<not> node_eq A B"
    and "attr_nei_snpa d1 = attr_inf_mac d2" and "attr_nei_snpa d2 = attr_inf_mac d1"
    and "attr_nei_snpa d3 = attr_inf_mac d4" and "attr_nei_snpa d4 = attr_inf_mac d3"
    and "attr_nei_snpa d5 = attr_inf_mac d6" and "attr_nei_snpa d6 = attr_inf_mac d5"
    and "distinct [attr_inf_mac d1, attr_inf_mac d3, attr_inf_mac d5]"
    and "distinct [attr_inf_mac d2, attr_inf_mac d4, attr_inf_mac d6]"
  shows "draw_edges [(A, B, d1), (B, A, d2)] route
       = Inr (Bidirectional Small_offset A B (edge_lbl d1) (edge_lbl d2) # route_highlights route)
     \<and> draw_edges [(A, B, d1), (A, B, d3), (B, A, d2), (B, A, d4)] route
       = Inr ([Bidirectional Small_offset A B (edge_lbl d1) (edge_lbl d2),
               Bidirectional Wide_offset A B (edge_lbl d3) (edge_lbl d4)]
              @ route_highlights route)
     \<and> draw_edges [(A, B, d1), (A, B, d3), (B, A, d4), (B, A, d2)] route
       = Inr ([Bidirectional Small_offset A B (edge_lbl d1) (edge_lbl d2),
               Bidirectional Wide_offset A B (edge_lbl d3) (edge_lbl d4)]
              @ route_highlights route)
     \<and> draw_edges [(A, B, d1), (A, B, d3), (A, B, d5), (B, A, d2), (B, A, d4), (B, A, d6)] route
       = Inr ([Bidirectional Small_offset A B (edge_lbl d1) (edge_lbl d2),
               Bidirectional Wide_offset A B (edge_lbl d3) (edge_lbl d4)]
              @ route_highlights route)
     \<and> (attr_inf_mac d1 \<noteq> attr_inf_mac d7 \<and> attr_nei_snpa d7 \<noteq> attr_inf_mac d2 \<longrightarrow>
          draw_edges [(A, B, d1), (A, B, d7), (B, A, d2)] route = Inl TypeError)
     \<and> (draw_edges edges route = Inr out
          \<and> out = pre @ Bidirectional Wide_offset u v a b # post \<longrightarrow>
          (\<exists>x y a' b'. filter (between u v) pre = [Bidirectional Small_offset x y a' b']
             \<and> node_eq x u \<and> node_eq y v))
     \<and> (draw_edges edges route = Inr out \<and> Bidirectional w u v a b \<in> set out \<longrightarrow>
          (\<exists>m d nd. dict_get (edge_labels_of edges) (u, v, m) = Some d
             \<and> dict_get (edge_labels_of edges) (v, u, attr_nei_snpa d) = Some nd
             \<and> a = edge_lbl d \<and> b = edge_lbl nd))
     \<and> (dict_get el (u, v, m) = Some d \<and> dict_get el (v, u, attr_nei_snpa d) = None \<longrightarrow>
          draw_step el st (u, v, m)
            = (if key_in (u, v, m) (visited_adj st) then Inr st else Inl TypeError))"
proof -
  from assms(8,9) have ne:
    "attr_inf_mac d1 \<noteq> attr_inf_mac d3" "attr_inf_mac d1 \<noteq> attr_inf_mac d5"
    "attr_inf_mac d3 \<noteq> attr_inf_mac d5"
    "attr_inf_mac d2 \<noteq> attr_inf_mac d4" "attr_inf_mac d2 \<noteq> attr_inf_mac d6"
    "attr_inf_mac d4 \<noteq> attr_inf_mac d6" by simp_all
  note p1 = draw_pair [OF assms(1,2), of route]
  note p2 = draw_two_pairs [OF assms(1,2,4,5) ne(1,4), of route]
  note p2' = draw_two_pairs_other_order [OF assms(1,2,4,5) ne(1,4), of route]
  note p3 = draw_three_pairs [OF assms(1,2,4,5,6,7) ne, of route]
  have p3': "attr_inf_mac d1 \<noteq> attr_inf_mac d7 \<and> attr_nei_snpa d7 \<noteq> attr_inf_mac d2 \<longrightarrow>
          draw_edges [(A, B, d1), (A, B, d7), (B, A, d2)] route = Inl TypeError"
    using draw_pair_and_single [OF assms(1,2), of d7 route] by blast
  have p4: "draw_edges edges route = Inr out
          \<and> out = pre @ Bidirectional Wide_offset u v a b # post \<longrightarrow>
          (\<exists>x y a' b'. filter (between u v) pre = [Bidirectional Small_offset x y a' b']
             \<and> node_eq x u \<and> node_eq y v)"
    using wide_after_one_small [of edges route out pre u v a b post] by blast
  have p5: "draw_edges edges route = Inr out \<and> Bidirectional w u v a b \<in> set out \<longrightarrow>
          (\<exists>m d nd. dict_get (edge_labels_of edges) (u, v, m) = Some d
             \<and> dict_get (edge_labels_of edges) (v, u, attr_nei_snpa d) = Some nd
             \<and> a = edge_lbl d \<and> b = edge_lbl nd)"
    using units_have_both_directions [of edges route out w u v a b] by blast
  have p6: "dict_get el (u, v, m) = Some d \<and> dict_get el (v, u, attr_nei_snpa d) = None \<longrightarrow>
          draw_step el st (u, v, m)
            = (if key_in (u, v, m) (visited_adj st) then Inr st else Inl TypeError)"
    using one_direction_step [of el u v m d st] by blast
  from p1 p2 p2' p3 p3' p4 p5 p6 show ?thesis by (intro conjI)
qed

lemma ex_labels:
  "edge_lbl (ex_attrs ''to-R2-a'' 100 ''0x00aa00000001'' ''0x00aa00000002'') = ''to-R2-a : 100''"
  "edge_lbl (ex_attrs ''to-R1-a'' 200 ''0x00aa00000002'' ''0x00aa00000001'') = ''to-R1-a : 200''"
  "edge_lbl (ex_attrs ''to-R2-b'' 101 ''0x00bb00000001'' ''0x00bb00000002'') = ''to-R2-b : 101''"
  "edge_lbl (ex_attrs ''to-R1-b'' 201 ''0x00bb00000002'' ''0x00bb00000001'') = ''to-R1-b : 201''"
  by (simp_all add: edge_lbl_def ex_attrs_def str_int_def str_nat.simps digit_char_def)

lemma ex_nodes_differ: "\<not> node_eq ex_R1 ex_R2"
  by (simp add: node_eq_def VNode_eq_def ex_R1_def ex_R2_def VNode_init_def)

theorem link_pairing_witness:
  "draw_edges
     [(ex_R1, ex_R2, ex_attrs ''to-R2-a'' 100 ''0x00aa00000001'' ''0x00aa00000002''),
      (ex_R1, ex_R2, ex_attrs ''to-R2-b'' 101 ''0x00bb00000001'' ''0x00bb00000002''),
      (ex_R2, ex_R1, ex_attrs ''to-R1-a'' 200 ''0x00aa00000002'' ''0x00aa00000001''),
      (ex_R2, ex_R1, ex_attrs ''to-R1-b'' 201 ''0x00bb00000002'' ''0x00bb00000001'')] []
   = Inr [Bidirectional Small_offset ex_R1 ex_R2 ''to-R2-a : 100'' ''to-R1-a : 200'',
          Bidirectional Wide_offset ex_R1 ex_R2 ''to-R2-b : 101'' ''to-R1-b : 201'']"
proof -
  let ?d1 = "ex_attrs ''to-R2-a'' 100 ''0x00aa00000001'' ''0x00aa00000002''"
  let ?d2 = "ex_attrs ''to-R1-a'' 200 ''0x00aa00000002'' ''0x00aa00000001''"
  let ?d3 = "ex_attrs ''to-R2-b'' 101 ''0x00bb00000001'' ''0x00bb00000002''"
  let ?d4 = "ex_attrs ''to-R1-b'' 201 ''0x00bb00000002'' ''0x00bb00000001''"
  let ?d5 = "ex_attrs ''to-R2-c'' 102 ''0x00cc00000001'' ''0x00cc00000002''"
  let ?d6 = "ex_attrs ''to-R1-c'' 202 ''0x00cc00000002'' ''0x00cc00000001''"
  have r: "attr_nei_snpa ?d1 = attr_inf_mac ?d2" "attr_nei_snpa ?d2 = attr_inf_mac ?d1"
    "attr_nei_snpa ?d3 = attr_inf_mac ?d4" "attr_nei_snpa ?d4 = attr_inf_mac ?d3"
    "attr_nei_snpa ?d5 = attr_inf_mac ?d6" "attr_nei_snpa ?d6 = attr_inf_mac ?d5"
    by (simp_all add: ex_attrs_def)
  have k: "distinct [attr_inf_mac ?d1, attr_inf_mac ?d3, attr_inf_mac ?d5]"
    "distinct [attr_inf_mac ?d2, attr_inf_mac ?d4, attr_inf_mac ?d6]"
    by (simp_all add: ex_attrs_def)
  from link_pairing [OF ex_nodes_differ r k, of "[]"]
  have "draw_edges [(ex_R1, ex_R2, ?d1), (ex_R1, ex_R2, ?d3), (ex_R2, ex_R1, ?d2),
                    (ex_R2, ex_R1, ?d4)] []
       = Inr ([Bidirectional Small_offset ex_R1 ex_R2 (edge_lbl ?d1) (edge_lbl ?d2),
               Bidirectional Wide_offset ex_R1 ex_R2 (edge_lbl ?d3) (edge_lbl ?d4)]
              @ route_highlights [])"
    by blast
  then show ?thesis by (simp add: ex_labels route_highlights_def)
qed

text \<open>
  C6. A link with no reverse counterpart does not get its label: the round that reaches
  its key raises \<open>TypeError\<close> at \<open>np.array[dx, dy]\<close>, and \<open>draw_edges\<close> on a graph whose only
  edge is such a link ends with that exception, drawing nothing.
\<close>

theorem unidirectional_link_raises:
  "(dict_get el (u, v, m) = Some d \<and> dict_get el (v, u, attr_nei_snpa d) = None
      \<and> \<not> key_in (u, v, m) (visited_adj st) \<longrightarrow> draw_step el st (u, v, m) = Inl TypeError)
   \<and> (\<not> (node_eq u v \<and> attr_nei_snpa d = attr_inf_mac d) \<longrightarrow>
        draw_edges [(u, v, d)] route = Inl TypeError)"
  using one_direction_step [of el u v m d st] draw_single [of u v d route]
  by auto

theorem unidirectional_link_raises_witness:
  "draw_edges [(ex_R1, ex_R2, ex_attrs ''to-R2-a'' 100 ''0x00aa00000001'' ''0x00aa00000002'')] []
     = Inl TypeError"
  using unidirectional_link_raises [of _ ex_R1 ex_R2 _
      "ex_attrs ''to-R2-a'' 100 ''0x00aa00000001'' ''0x00aa00000002''" _ "[]"]
    ex_nodes_differ
  by simp

section \<open>Where a link is stored\<close>

lemma matrix_store_at:
  assumes "matrix_store m si (int j) ve = Inr m'" "py_index si (length m) = Some i"
  shows "length m' = length m
     \<and> j < length (m ! i)
     \<and> (\<forall>j'. cell m' i j' = (if j' = j \<and> cell m i j = None then Some ve else cell m i j'))
     \<and> (\<forall>i' j'. i' \<noteq> i \<longrightarrow> cell m' i' j' = cell m i' j')"
proof -
  have ib: "i < length m" using assms(2) by (rule py_index_bound)
  from assms have g: "py_getitem m si = Inr (m ! i)"
    by (simp add: py_getitem_def)
  with assms(1) obtain cur where c: "py_getitem (m ! i) (int j) = Inr cur"
    by (auto simp add: matrix_store_def split: sum.splits)
  then have jb: "j < length (m ! i)" and cur: "cur = m ! i ! j"
    by (auto simp add: py_getitem_def py_index_def split: if_splits)
  show ?thesis
  proof (cases "cur = None")
    case True
    with assms g c jb have "m' = m[i := (m ! i)[j := Some ve]]"
      by (simp add: matrix_store_def py_setitem_def py_index_nat)
    with ib jb True cur show ?thesis
      by (auto simp add: cell_def nth_list_update)
  next
    case False
    with assms(1) g c have "m' = m" by (simp add: matrix_store_def)
    with False cur jb show ?thesis by (simp add: cell_def)
  qed
qed

lemma record_adjacency_at:
  assumes "record_adjacency nodes node_id nbr_id ifname adj st = Inr st'"
    and "sys_id_in_nodes nodes nbr_id"
    and "length (adj_martix st) = length nodes"
    and "py_index (sys_to_idx nodes node_id) (length nodes) = Some i"
  shows "\<exists>ve j. adjs st' = adjs st @ [ve] \<and> next_uuid st' = Suc (next_uuid st)
     \<and> edge_uuid ve = next_uuid st \<and> j < length nodes
     \<and> vertices ve = (nodes ! i, nodes ! j)
     \<and> sys_to_idx nodes (system_id (nodes ! j)) = int j
     \<and> length (adj_martix st') = length nodes
     \<and> (\<forall>j'. cell (adj_martix st') i j'
           = (if j' = j \<and> cell (adj_martix st) i j = None then Some ve
              else cell (adj_martix st) i j'))
     \<and> (\<forall>i' j'. i' \<noteq> i \<longrightarrow> cell (adj_martix st') i' j' = cell (adj_martix st) i' j')"
proof -
  from sys_to_idx_hit [OF assms(2)] obtain j where j: "j < length nodes"
    "sys_to_idx nodes nbr_id = int j" "system_id (nodes ! j) = nbr_id" by blast
  from record_adjacency_adjs [OF assms(1)] obtain sid src_node dst_node where r:
    "py_getitem nodes (sys_to_idx nodes node_id) = Inr src_node"
    "py_getitem nodes (sys_to_idx nodes nbr_id) = Inr dst_node"
    "adjs st' = adjs st @ [set_nei_snpa (set_inf_name
          (VEdge_init (next_uuid st) src_node dst_node sid) ifname) (snpa_address adj)]"
    "next_uuid st' = Suc (next_uuid st)"
    "matrix_store (adj_martix st) (sys_to_idx nodes node_id) (sys_to_idx nodes nbr_id)
          (set_nei_snpa (set_inf_name
            (VEdge_init (next_uuid st) src_node dst_node sid) ifname) (snpa_address adj))
        = Inr (adj_martix st')"
    by blast
  let ?ve = "set_nei_snpa (set_inf_name
          (VEdge_init (next_uuid st) src_node dst_node sid) ifname) (snpa_address adj)"
  from r(1) assms(4) have src: "src_node = nodes ! i" by (simp add: py_getitem_def)
  from r(2) j have dst: "dst_node = nodes ! j" by (simp add: py_getitem_nat)
  have v: "vertices ?ve = (nodes ! i, nodes ! j)" "edge_uuid ?ve = next_uuid st"
    by (simp_all add: set_nei_snpa_def set_inf_name_def VEdge_init_def src dst)
  from assms(3,4) have pi: "py_index (sys_to_idx nodes node_id) (length (adj_martix st)) = Some i"
    by simp
  from r(5) have ms: "matrix_store (adj_martix st) (sys_to_idx nodes node_id) (int j) ?ve
      = Inr (adj_martix st')" by (simp add: j)
  from matrix_store_at [OF ms pi] assms(3) r(3,4) v j show ?thesis
    by (intro exI [of _ ?ve] exI [of _ j]) simp
qed

lemma inf_step_at:
  assumes "inf_step nodes node_id st ifc = Inr st'"
    and "length (adj_martix st) = length nodes"
    and "py_index (sys_to_idx nodes node_id) (length nodes) = Some i"
  shows "st' = st \<or>
     (\<exists>ve j. adjs st' = adjs st @ [ve] \<and> next_uuid st' = Suc (next_uuid st)
     \<and> edge_uuid ve = next_uuid st \<and> j < length nodes
     \<and> vertices ve = (nodes ! i, nodes ! j)
     \<and> sys_to_idx nodes (system_id (nodes ! j)) = int j
     \<and> length (adj_martix st') = length nodes
     \<and> (\<forall>j'. cell (adj_martix st') i j'
           = (if j' = j \<and> cell (adj_martix st) i j = None then Some ve
              else cell (adj_martix st) i j'))
     \<and> (\<forall>i' j'. i' \<noteq> i \<longrightarrow> cell (adj_martix st') i' j' = cell (adj_martix st) i' j'))"
proof -
  from inf_step_cases [of nodes node_id st ifc] show ?thesis
  proof
    assume "inf_step nodes node_id st ifc = Inr st"
    with assms(1) show ?thesis by simp
  next
    assume "\<exists>adj. adjacency ifc = Some adj \<and> oper_state adj = ''up''
      \<and> sys_id_in_nodes nodes (normalise_nbr_id (nbr_system_id adj))
      \<and> inf_step nodes node_id st ifc
          = record_adjacency nodes node_id (normalise_nbr_id (nbr_system_id adj))
              (interface_name ifc) adj st"
    then obtain adj where a: "sys_id_in_nodes nodes (normalise_nbr_id (nbr_system_id adj))"
      "inf_step nodes node_id st ifc
          = record_adjacency nodes node_id (normalise_nbr_id (nbr_system_id adj))
              (interface_name ifc) adj st" by blast
    from a(2) assms(1) have "record_adjacency nodes node_id
        (normalise_nbr_id (nbr_system_id adj)) (interface_name ifc) adj st = Inr st'" by simp
    from record_adjacency_at [OF this a(1) assms(2,3)] show ?thesis by blast
  qed
qed

lemma first_link_to_Cons:
  "first_link_to nodes (ve # links) j
     = (if sys_to_idx nodes (system_id (snd (vertices ve))) = int j then Some ve
        else first_link_to nodes links j)"
  by (simp add: first_link_to_def)

lemma inf_loop_at:
  "inf_loop nodes node_id st infs = Inr st' \<Longrightarrow> length (adj_martix st) = length nodes
   \<Longrightarrow> py_index (sys_to_idx nodes node_id) (length nodes) = Some i
   \<Longrightarrow> \<exists>new. adjs st' = adjs st @ new \<and> length (adj_martix st') = length nodes
     \<and> next_uuid st' = next_uuid st + length new
     \<and> map edge_uuid new = [next_uuid st ..< next_uuid st + length new]
     \<and> (\<forall>ve \<in> set new. \<exists>j < length nodes. vertices ve = (nodes ! i, nodes ! j)
            \<and> sys_to_idx nodes (system_id (nodes ! j)) = int j)
     \<and> (\<forall>j. cell (adj_martix st') i j
           = (case cell (adj_martix st) i j of
                Some e \<Rightarrow> Some e
              | None \<Rightarrow> first_link_to nodes new j))
     \<and> (\<forall>i' j. i' \<noteq> i \<longrightarrow> cell (adj_martix st') i' j = cell (adj_martix st) i' j)"
proof (induction infs arbitrary: st)
  case Nil
  then show ?case by (intro exI [of _ "[]"]) (simp add: first_link_to_def split: option.splits)
next
  case (Cons ifc infs)
  from Cons.prems(1) obtain st1 where s: "inf_step nodes node_id st ifc = Inr st1"
    "inf_loop nodes node_id st1 infs = Inr st'"
    by (auto split: sum.splits)
  from inf_step_at [OF s(1) Cons.prems(2,3)] show ?case
  proof
    assume "st1 = st"
    with Cons.IH [OF s(2) _ Cons.prems(3)] Cons.prems(2) show ?thesis by simp
  next
    assume "\<exists>ve j. adjs st1 = adjs st @ [ve] \<and> next_uuid st1 = Suc (next_uuid st)
     \<and> edge_uuid ve = next_uuid st \<and> j < length nodes
     \<and> vertices ve = (nodes ! i, nodes ! j)
     \<and> sys_to_idx nodes (system_id (nodes ! j)) = int j
     \<and> length (adj_martix st1) = length nodes
     \<and> (\<forall>j'. cell (adj_martix st1) i j'
           = (if j' = j \<and> cell (adj_martix st) i j = None then Some ve
              else cell (adj_martix st) i j'))
     \<and> (\<forall>i' j'. i' \<noteq> i \<longrightarrow> cell (adj_martix st1) i' j' = cell (adj_martix st) i' j')"
    then obtain ve j0 where v: "adjs st1 = adjs st @ [ve]" "next_uuid st1 = Suc (next_uuid st)"
      "edge_uuid ve = next_uuid st" "j0 < length nodes"
      "vertices ve = (nodes ! i, nodes ! j0)"
      "sys_to_idx nodes (system_id (nodes ! j0)) = int j0"
      "length (adj_martix st1) = length nodes"
      and c1: "\<And>j'. cell (adj_martix st1) i j'
           = (if j' = j0 \<and> cell (adj_martix st) i j0 = None then Some ve
              else cell (adj_martix st) i j')"
      and o1: "\<And>i' j'. i' \<noteq> i \<Longrightarrow> cell (adj_martix st1) i' j' = cell (adj_martix st) i' j'"
      by blast
    from Cons.IH [OF s(2) v(7) Cons.prems(3)] obtain new1 where n:
      "adjs st' = adjs st1 @ new1" "length (adj_martix st') = length nodes"
      "next_uuid st' = next_uuid st1 + length new1"
      "map edge_uuid new1 = [next_uuid st1 ..< next_uuid st1 + length new1]"
      "\<forall>ve \<in> set new1. \<exists>j < length nodes. vertices ve = (nodes ! i, nodes ! j)
            \<and> sys_to_idx nodes (system_id (nodes ! j)) = int j"
      and c2: "\<And>j. cell (adj_martix st') i j
           = (case cell (adj_martix st1) i j of
                Some e \<Rightarrow> Some e
              | None \<Rightarrow> first_link_to nodes new1 j)"
      and o2: "\<And>i' j. i' \<noteq> i \<Longrightarrow> cell (adj_martix st') i' j = cell (adj_martix st1) i' j"
      by blast
    have a: "adjs st' = adjs st @ (ve # new1)" using n(1) v(1) by simp
    have b: "next_uuid st' = next_uuid st + length (ve # new1)" using n(3) v(2) by simp
    have u: "map edge_uuid (ve # new1) = [next_uuid st ..< next_uuid st + length (ve # new1)]"
    proof -
      have "[next_uuid st ..< next_uuid st + length (ve # new1)]
          = next_uuid st # [next_uuid st1 ..< next_uuid st1 + length new1]"
        unfolding v(2) by (simp add: upt_conv_Cons del: upt_Suc)
      with n(4) v(3) show ?thesis by (simp del: upt_Suc)
    qed
    have e: "\<forall>x \<in> set (ve # new1). \<exists>j < length nodes. vertices x = (nodes ! i, nodes ! j)
            \<and> sys_to_idx nodes (system_id (nodes ! j)) = int j"
      using n(5) v(4,5,6) by auto
    have f: "first_link_to nodes (ve # new1) j
        = (if j0 = j then Some ve else first_link_to nodes new1 j)" for j
      using v(5,6) by (simp add: first_link_to_Cons)
    have c: "cell (adj_martix st') i j
           = (case cell (adj_martix st) i j of
                Some e \<Rightarrow> Some e
              | None \<Rightarrow> first_link_to nodes (ve # new1) j)" for j
      unfolding c2 c1 f by (auto split: option.splits)
    have d: "\<forall>i' j. i' \<noteq> i \<longrightarrow> cell (adj_martix st') i' j = cell (adj_martix st) i' j"
      using o1 o2 by simp
    from a n(2) b u e c d show ?thesis by (intro exI [of _ "ve # new1"]) blast
  qed
qed

lemma get_inf_adjs_at:
  assumes "get_inf_adjs isis nodes m u = Inr st" "length m = length nodes"
    "py_index (sys_to_idx nodes (oper_system_id isis)) (length nodes) = Some i"
  shows "length (adj_martix st) = length nodes
     \<and> next_uuid st = u + length (adjs st)
     \<and> map edge_uuid (adjs st) = [u ..< u + length (adjs st)]
     \<and> (\<forall>ve \<in> set (adjs st). \<exists>j < length nodes. vertices ve = (nodes ! i, nodes ! j)
            \<and> sys_to_idx nodes (system_id (nodes ! j)) = int j)
     \<and> (\<forall>j. cell (adj_martix st) i j
           = (case cell m i j of Some e \<Rightarrow> Some e | None \<Rightarrow> first_link_to nodes (adjs st) j))
     \<and> (\<forall>i' j. i' \<noteq> i \<longrightarrow> cell (adj_martix st) i' j = cell m i' j)"
  using inf_loop_at [of nodes "oper_system_id isis" "\<lparr>adjs = [], adj_martix = m, next_uuid = u\<rparr>"
      "interfaces isis" st i] assms
  by (auto simp add: get_inf_adjs_def)

section \<open>The MAC back-fill\<close>

lemma set_inf_mac_Inr: "set_inf_mac e s = Inr e' \<Longrightarrow> e' = e\<lparr>inf_mac := Some s\<rparr>"
  by (auto simp add: set_inf_mac_def split: if_splits)

lemma get_inf_mac_by_adj_map:
  "get_inf_mac_by_adj hw_mac es = Inr filled \<Longrightarrow> filled = map (mac_written hw_mac) es"
proof (induction es arbitrary: filled)
  case Nil
  then show ?case by simp
next
  case (Cons e es)
  from Cons.prems obtain mac e' es' where h: "hw_mac (inf_name e) = Inr mac"
    "set_inf_mac e (normalise_mac mac) = Inr e'" "get_inf_mac_by_adj hw_mac es = Inr es'"
    "filled = e' # es'"
    by (auto split: sum.splits)
  from set_inf_mac_Inr [OF h(2)] h(1) have "e' = mac_written hw_mac e"
    by (simp add: mac_written_def)
  with Cons.IH [OF h(3)] h(4) show ?case by simp
qed

lemma mac_written_fields:
  "edge_uuid (mac_written hw_mac e) = edge_uuid e"
  "vertices (mac_written hw_mac e) = vertices e"
  "adj_sid (mac_written hw_mac e) = adj_sid e"
  "inf_name (mac_written hw_mac e) = inf_name e"
  "nei_snpa (mac_written hw_mac e) = nei_snpa e"
  by (simp_all add: mac_written_def)

lemma find_map_option: "find P (map g xs) = map_option g (find (\<lambda>x. P (g x)) xs)"
  by (induction xs) simp_all

lemma find_append_option:
  "find P (xs @ ys) = (case find P xs of Some x \<Rightarrow> Some x | None \<Rightarrow> find P ys)"
  by (induction xs) simp_all

lemma backfill_cell_None: "backfill_cell filled None = None"
  by (simp add: backfill_cell_def)

lemma backfill_cell_old:
  "edge_uuid e \<notin> edge_uuid ` set filled \<Longrightarrow> backfill_cell filled (Some e) = Some e"
proof -
  assume "edge_uuid e \<notin> edge_uuid ` set filled"
  then have "find (\<lambda>f. edge_uuid f = edge_uuid e) filled = None"
    unfolding find_None_iff by (metis image_eqI)
  then show ?thesis by (simp add: backfill_cell_def)
qed

lemma backfill_cell_new:
  "distinct (map edge_uuid es) \<Longrightarrow> e \<in> set es
   \<Longrightarrow> backfill_cell (map (mac_written hw_mac) es) (Some e) = Some (mac_written hw_mac e)"
proof (induction es)
  case Nil
  then show ?case by simp
next
  case (Cons x es)
  show ?case
  proof (cases "e = x")
    case True
    then show ?thesis by (simp add: backfill_cell_def mac_written_fields)
  next
    case False
    with Cons.prems have in_es: "e \<in> set es" and d: "distinct (map edge_uuid es)"
      and "edge_uuid x \<notin> edge_uuid ` set es" by auto
    then have "edge_uuid x \<noteq> edge_uuid e" by auto
    with Cons.IH [OF d in_es] show ?thesis
      by (simp add: backfill_cell_def mac_written_fields)
  qed
qed

lemma backfill_cell_uuid:
  "backfill_cell filled c = Some f \<Longrightarrow> \<exists>e. c = Some e \<and> edge_uuid f = edge_uuid e"
  by (auto simp add: backfill_cell_def find_Some_iff split: option.splits)

lemma cell_backfill_matrix:
  "i < length m \<Longrightarrow> j < length (m ! i)
   \<Longrightarrow> cell (backfill_matrix filled m) i j = backfill_cell filled (cell m i j)"
  by (simp add: cell_def backfill_matrix_def)

lemma square_backfill_matrix: "square n (backfill_matrix filled m) = square n m"
  by (simp add: square_def backfill_matrix_def list_all_length)

lemma square_cell: "square n m \<Longrightarrow> i < n \<Longrightarrow> length m = n \<and> length (m ! i) = n"
  by (simp add: square_def list_all_length)

lemma uuids_below_iff:
  "square n m \<Longrightarrow>
   uuids_below u m \<longleftrightarrow> (\<forall>i < n. \<forall>j < n. \<forall>e. cell m i j = Some e \<longrightarrow> edge_uuid e < u)"
  by (auto simp add: uuids_below_def square_def list_all_length cell_def split: option.splits)

section \<open>Identity tokens of the links of a call\<close>

lemma inf_step_square:
  assumes "inf_step nodes node_id st ifc = Inr st'" "square n (adj_martix st)"
  shows "square n (adj_martix st')"
  using inf_step_cases [of nodes node_id st ifc] assms record_adjacency_square
  by (metis sum.inject(2))

lemma record_adjacency_uuids:
  assumes "record_adjacency nodes node_id nbr_id ifname adj st = Inr st'"
    "square n (adj_martix st)" "uuids_below (next_uuid st) (adj_martix st)"
  shows "uuids_below (next_uuid st') (adj_martix st')
     \<and> (\<exists>ve. adjs st' = adjs st @ [ve] \<and> edge_uuid ve = next_uuid st)
     \<and> next_uuid st' = Suc (next_uuid st)"
proof -
  from record_adjacency_adjs [OF assms(1)] obtain ve where v: "adjs st' = adjs st @ [ve]"
    "edge_uuid ve = next_uuid st" "next_uuid st' = Suc (next_uuid st)"
    by (auto simp add: set_nei_snpa_def set_inf_name_def VEdge_init_def)
  have sq: "square n (adj_martix st')" using assms(1,2) by (rule record_adjacency_square)
  have "edge_uuid e < next_uuid st'" if "cell (adj_martix st') i j = Some e" "i < n" "j < n"
    for i j e
  proof -
    from record_adjacency_cell [OF assms(1), of i j]
    have "cell (adj_martix st') i j = cell (adj_martix st) i j
       \<or> cell (adj_martix st') i j = Some ve" using v(1) by auto
    then show ?thesis
    proof
      assume "cell (adj_martix st') i j = cell (adj_martix st) i j"
      with that assms(2,3) have "edge_uuid e < next_uuid st"
        by (simp add: uuids_below_iff)
      with v(3) show ?thesis by simp
    next
      assume "cell (adj_martix st') i j = Some ve"
      with that v(2,3) show ?thesis by simp
    qed
  qed
  with sq v show ?thesis by (auto simp add: uuids_below_iff)
qed

lemma inf_step_uuids:
  assumes "inf_step nodes node_id st ifc = Inr st'"
    "square n (adj_martix st)" "uuids_below (next_uuid st) (adj_martix st)"
  shows "uuids_below (next_uuid st') (adj_martix st')
     \<and> (\<exists>new. adjs st' = adjs st @ new
            \<and> map edge_uuid new = [next_uuid st ..< next_uuid st']
            \<and> next_uuid st \<le> next_uuid st')"
proof -
  from inf_step_cases [of nodes node_id st ifc] show ?thesis
  proof
    assume "inf_step nodes node_id st ifc = Inr st"
    with assms have "st' = st" by simp
    with assms(3) show ?thesis by simp
  next
    assume "\<exists>adj. adjacency ifc = Some adj \<and> oper_state adj = ''up''
      \<and> sys_id_in_nodes nodes (normalise_nbr_id (nbr_system_id adj))
      \<and> inf_step nodes node_id st ifc
          = record_adjacency nodes node_id (normalise_nbr_id (nbr_system_id adj))
              (interface_name ifc) adj st"
    then obtain adj where "inf_step nodes node_id st ifc
          = record_adjacency nodes node_id (normalise_nbr_id (nbr_system_id adj))
              (interface_name ifc) adj st" by blast
    with assms(1) have "record_adjacency nodes node_id (normalise_nbr_id (nbr_system_id adj))
              (interface_name ifc) adj st = Inr st'" by simp
    from record_adjacency_uuids [OF this assms(2,3)] obtain ve where
      "uuids_below (next_uuid st') (adj_martix st')" "adjs st' = adjs st @ [ve]"
      "edge_uuid ve = next_uuid st" "next_uuid st' = Suc (next_uuid st)" by blast
    then show ?thesis by (intro conjI exI [of _ "[ve]"]) simp_all
  qed
qed

lemma upt_join: "a \<le> b \<Longrightarrow> b \<le> c \<Longrightarrow> [a ..< b] @ [b ..< c] = [a ..< c]"
  using upt_add_eq_append [of a b "c - b"] by simp

lemma inf_loop_uuids:
  "inf_loop nodes node_id st infs = Inr st' \<Longrightarrow> square n (adj_martix st)
   \<Longrightarrow> uuids_below (next_uuid st) (adj_martix st)
   \<Longrightarrow> square n (adj_martix st') \<and> uuids_below (next_uuid st') (adj_martix st')
     \<and> (\<exists>new. adjs st' = adjs st @ new
            \<and> map edge_uuid new = [next_uuid st ..< next_uuid st']
            \<and> next_uuid st \<le> next_uuid st')"
proof (induction infs arbitrary: st)
  case Nil
  then show ?case by simp
next
  case (Cons ifc infs)
  from Cons.prems(1) obtain st1 where s: "inf_step nodes node_id st ifc = Inr st1"
    "inf_loop nodes node_id st1 infs = Inr st'"
    by (auto split: sum.splits)
  have sq1: "square n (adj_martix st1)" using s(1) Cons.prems(2) by (rule inf_step_square)
  from inf_step_uuids [OF s(1) Cons.prems(2,3)] obtain new0 where
    u1: "uuids_below (next_uuid st1) (adj_martix st1)"
    and n0: "adjs st1 = adjs st @ new0" "map edge_uuid new0 = [next_uuid st ..< next_uuid st1]"
      "next_uuid st \<le> next_uuid st1" by blast
  from Cons.IH [OF s(2) sq1 u1] obtain new1 where
    r: "square n (adj_martix st')" "uuids_below (next_uuid st') (adj_martix st')"
    and n1: "adjs st' = adjs st1 @ new1" "map edge_uuid new1 = [next_uuid st1 ..< next_uuid st']"
      "next_uuid st1 \<le> next_uuid st'" by blast
  have "map edge_uuid (new0 @ new1) = [next_uuid st ..< next_uuid st']"
    using n0(2,3) n1(2,3) by (simp add: upt_join)
  with r n0 n1 show ?case by (intro conjI exI [of _ "new0 @ new1"]) simp_all
qed

lemma get_inf_adjs_uuids:
  assumes "get_inf_adjs isis nodes m u = Inr st" "square n m" "uuids_below u m"
  shows "square n (adj_martix st) \<and> uuids_below (next_uuid st) (adj_martix st)
     \<and> map edge_uuid (adjs st) = [u ..< next_uuid st] \<and> u \<le> next_uuid st"
  using inf_loop_uuids [of nodes "oper_system_id isis"
      "\<lparr>adjs = [], adj_martix = m, next_uuid = u\<rparr>" "interfaces isis" st n] assms
  by (auto simp add: get_inf_adjs_def)

section \<open>One snapshot after another\<close>

lemma ingest_Inr:
  assumes "ingest nodes acc snap = Inr acc'"
  obtains st where "get_inf_adjs (snd snap) nodes (adj_martix acc) (next_uuid acc) = Inr st"
    "adjs acc' = adjs acc @ map (mac_written (fst snap)) (adjs st)"
    "adj_martix acc' = backfill_matrix (map (mac_written (fst snap)) (adjs st)) (adj_martix st)"
    "next_uuid acc' = next_uuid st"
proof -
  from assms obtain st filled where
    g: "get_inf_adjs (snd snap) nodes (adj_martix acc) (next_uuid acc) = Inr st"
    and f: "get_inf_mac_by_adj (fst snap) (adjs st) = Inr filled"
    and a: "acc' = \<lparr>adjs = adjs acc @ filled,
                   adj_martix = backfill_matrix filled (adj_martix st),
                   next_uuid = next_uuid st\<rparr>"
    by (auto simp add: ingest_def split: sum.splits)
  from get_inf_mac_by_adj_map [OF f] have "filled = map (mac_written (fst snap)) (adjs st)" .
  with g a that show ?thesis by simp
qed

lemma ingest_keeps:
  assumes "ingest nodes acc snap = Inr acc'" "square n (adj_martix acc)"
    "uuids_below (next_uuid acc) (adj_martix acc)"
  shows "square n (adj_martix acc') \<and> uuids_below (next_uuid acc') (adj_martix acc')
     \<and> (\<forall>i < n. \<forall>j < n. \<forall>e. cell (adj_martix acc) i j = Some e
           \<longrightarrow> cell (adj_martix acc') i j = Some e)"
proof -
  from assms(1) obtain st where
    g: "get_inf_adjs (snd snap) nodes (adj_martix acc) (next_uuid acc) = Inr st"
    and m: "adj_martix acc' = backfill_matrix (map (mac_written (fst snap)) (adjs st)) (adj_martix st)"
    and u: "next_uuid acc' = next_uuid st"
    by (rule ingest_Inr)
  let ?filled = "map (mac_written (fst snap)) (adjs st)"
  from get_inf_adjs_uuids [OF g assms(2,3)] have
    sq: "square n (adj_martix st)" and ub: "uuids_below (next_uuid st) (adj_martix st)"
    and ids: "map edge_uuid (adjs st) = [next_uuid acc ..< next_uuid st]" by simp_all
  have fids: "edge_uuid ` set ?filled = {next_uuid acc ..< next_uuid st}"
  proof -
    have "edge_uuid ` set ?filled = set (map edge_uuid (adjs st))"
      by (simp add: image_image mac_written_fields)
    then show ?thesis by (simp add: ids)
  qed
  have sq': "square n (adj_martix acc')" using sq by (simp add: m square_backfill_matrix)
  have c: "cell (adj_martix acc') i j = backfill_cell ?filled (cell (adj_martix st) i j)"
    if "i < n" "j < n" for i j
    using that square_cell [OF sq, of i] by (simp add: m cell_backfill_matrix)
  have below: "edge_uuid f < next_uuid acc'"
    if "i < n" "j < n" "cell (adj_martix acc') i j = Some f" for i j f
  proof -
    from that c have "backfill_cell ?filled (cell (adj_martix st) i j) = Some f" by simp
    from backfill_cell_uuid [OF this] obtain e where
      "cell (adj_martix st) i j = Some e" "edge_uuid f = edge_uuid e" by blast
    with that(1,2) sq ub u show ?thesis by (simp add: uuids_below_iff)
  qed
  have keep: "cell (adj_martix acc') i j = Some e"
    if "i < n" "j < n" "cell (adj_martix acc) i j = Some e" for i j e
  proof -
    from that assms(2,3) have "edge_uuid e < next_uuid acc" by (simp add: uuids_below_iff)
    then have "edge_uuid e \<notin> edge_uuid ` set ?filled" unfolding fids by simp
    then have "backfill_cell ?filled (Some e) = Some e" by (rule backfill_cell_old)
    with get_inf_adjs_cell [OF g that(3)] c [OF that(1,2)] show ?thesis by simp
  qed
  from sq' below keep show ?thesis by (simp add: uuids_below_iff [OF sq'])
qed

lemma extract_all_keeps:
  "extract_all nodes acc snaps = Inr acc' \<Longrightarrow> square n (adj_martix acc)
   \<Longrightarrow> uuids_below (next_uuid acc) (adj_martix acc)
   \<Longrightarrow> square n (adj_martix acc') \<and> uuids_below (next_uuid acc') (adj_martix acc')
     \<and> (\<forall>i < n. \<forall>j < n. \<forall>e. cell (adj_martix acc) i j = Some e
           \<longrightarrow> cell (adj_martix acc') i j = Some e)"
proof (induction snaps arbitrary: acc)
  case Nil
  then show ?case by simp
next
  case (Cons snap snaps)
  from Cons.prems(1) obtain acc1 where s: "ingest nodes acc snap = Inr acc1"
    "extract_all nodes acc1 snaps = Inr acc'"
    by (auto split: sum.splits)
  from ingest_keeps [OF s(1) Cons.prems(2,3)] have k1: "square n (adj_martix acc1)"
    "uuids_below (next_uuid acc1) (adj_martix acc1)"
    "\<forall>i < n. \<forall>j < n. \<forall>e. cell (adj_martix acc) i j = Some e
           \<longrightarrow> cell (adj_martix acc1) i j = Some e" by simp_all
  from Cons.IH [OF s(2) k1(1,2)] k1(3) show ?case by blast
qed

lemma first_link_append:
  "first_link (xs @ ys) a b
     = (case first_link xs a b of Some x \<Rightarrow> Some x | None \<Rightarrow> first_link ys a b)"
  by (simp add: first_link_def find_append_option split: option.splits)

lemma first_link_written:
  "first_link (map (mac_written hw_mac) xs) a b = map_option (mac_written hw_mac) (first_link xs a b)"
  by (simp add: first_link_def find_map_option mac_written_fields)

lemma first_link_in: "first_link xs a b = Some e \<Longrightarrow> e \<in> set xs"
  by (auto simp add: first_link_def find_Some_iff)

lemma distinct_nodes_nth:
  assumes "distinct (map system_id nodes)" "i < length nodes" "j < length nodes"
  shows "nodes ! i = nodes ! j \<longleftrightarrow> i = j"
proof -
  from assms(1) have "distinct nodes" by (rule distinct_map [THEN iffD1, THEN conjunct1])
  with assms(2,3) show ?thesis by (simp add: nth_eq_iff_index_eq)
qed

lemma ingest_first_links:
  assumes "ingest nodes acc snap = Inr acc'" and d: "distinct (map system_id nodes)"
    and sq: "square (length nodes) (adj_martix acc)"
    and ub: "uuids_below (next_uuid acc) (adj_martix acc)"
    and inv: "\<forall>i < length nodes. \<forall>j < length nodes.
        cell (adj_martix acc) i j = first_link (adjs acc) (nodes ! i) (nodes ! j)"
    and ij: "i < length nodes" "j < length nodes"
  shows "cell (adj_martix acc') i j = first_link (adjs acc') (nodes ! i) (nodes ! j)"
proof -
  let ?n = "length nodes"
  let ?g = "mac_written (fst snap)"
  from assms(1) obtain st where
    g: "get_inf_adjs (snd snap) nodes (adj_martix acc) (next_uuid acc) = Inr st"
    and a: "adjs acc' = adjs acc @ map ?g (adjs st)"
    and m: "adj_martix acc' = backfill_matrix (map ?g (adjs st)) (adj_martix st)"
    by (rule ingest_Inr)
  let ?new = "adjs st"
  from ij(1) have ne: "nodes \<noteq> []" by auto
  from sys_to_idx_py_index [OF ne] obtain i0 where
    i0: "py_index (sys_to_idx nodes (oper_system_id (snd snap))) ?n = Some i0" by blast
  have i0b: "i0 < ?n" using i0 by (rule py_index_bound)
  from sq have len: "length (adj_martix acc) = ?n" by (simp add: square_def)
  from get_inf_adjs_at [OF g len i0] have
    ends: "\<forall>ve \<in> set ?new. \<exists>j' < ?n. vertices ve = (nodes ! i0, nodes ! j')
            \<and> sys_to_idx nodes (system_id (nodes ! j')) = int j'"
    and row: "\<And>j. cell (adj_martix st) i0 j
           = (case cell (adj_martix acc) i0 j of Some e \<Rightarrow> Some e
              | None \<Rightarrow> first_link_to nodes ?new j)"
    and others: "\<And>i' j. i' \<noteq> i0 \<Longrightarrow> cell (adj_martix st) i' j = cell (adj_martix acc) i' j"
    by simp_all
  from get_inf_adjs_uuids [OF g sq ub] have
    sq1: "square ?n (adj_martix st)"
    and ids: "map edge_uuid ?new = [next_uuid acc ..< next_uuid st]" by simp_all
  have dist: "distinct (map edge_uuid ?new)" by (simp add: ids)
  have fids: "edge_uuid ` set (map ?g ?new) = {next_uuid acc ..< next_uuid st}"
  proof -
    have "edge_uuid ` set (map ?g ?new) = set (map edge_uuid ?new)"
      by (simp add: image_image mac_written_fields)
    then show ?thesis by (simp add: ids)
  qed
  have old: "backfill_cell (map ?g ?new) (cell (adj_martix acc) i' j') = cell (adj_martix acc) i' j'"
    if "i' < ?n" "j' < ?n" for i' j'
  proof (cases "cell (adj_martix acc) i' j'")
    case None
    then show ?thesis by (simp add: backfill_cell_None)
  next
    case (Some e)
    with that sq ub have "edge_uuid e < next_uuid acc" by (simp add: uuids_below_iff)
    then have "edge_uuid e \<notin> edge_uuid ` set (map ?g ?new)" unfolding fids by simp
    then show ?thesis unfolding Some by (rule backfill_cell_old)
  qed
  have c: "cell (adj_martix acc') i j = backfill_cell (map ?g ?new) (cell (adj_martix st) i j)"
    using ij square_cell [OF sq1, of i] by (simp add: m cell_backfill_matrix)
  have rhs: "first_link (adjs acc') (nodes ! i) (nodes ! j)
      = (case cell (adj_martix acc) i j of Some x \<Rightarrow> Some x
         | None \<Rightarrow> map_option ?g (first_link ?new (nodes ! i) (nodes ! j)))"
    using inv ij by (simp add: a first_link_append first_link_written split: option.splits)
  show ?thesis
  proof (cases "i = i0")
    case True
    have same: "first_link_to nodes ?new j = first_link ?new (nodes ! i0) (nodes ! j)"
      unfolding first_link_to_def first_link_def
    proof (rule find_cong [OF refl])
      fix ve assume "ve \<in> set ?new"
      with ends obtain j' where j': "j' < ?n" "vertices ve = (nodes ! i0, nodes ! j')"
        "sys_to_idx nodes (system_id (nodes ! j')) = int j'" by blast
      have "nodes ! j' = nodes ! j \<longleftrightarrow> j' = j" using d j'(1) ij(2) by (rule distinct_nodes_nth)
      with j' show "(sys_to_idx nodes (system_id (snd (vertices ve))) = int j)
          = (vertices ve = (nodes ! i0, nodes ! j))" by simp
    qed
    show ?thesis
    proof (cases "cell (adj_martix acc) i j")
      case (Some e)
      with True row [of j] have "cell (adj_martix st) i j = cell (adj_martix acc) i j" by simp
      with c old [OF ij] rhs Some show ?thesis by simp
    next
      case None
      with True row [of j] same
      have r: "cell (adj_martix st) i j = first_link ?new (nodes ! i) (nodes ! j)" by simp
      show ?thesis
      proof (cases "first_link ?new (nodes ! i) (nodes ! j)")
        case None
        with c r rhs \<open>cell (adj_martix acc) i j = None\<close> show ?thesis
          by (simp add: backfill_cell_None)
      next
        case (Some e)
        from first_link_in [OF this] have "e \<in> set ?new" .
        from backfill_cell_new [OF dist this, of "fst snap"] c r rhs Some
          \<open>cell (adj_martix acc) i j = None\<close>
        show ?thesis by simp
      qed
    qed
  next
    case False
    have none: "first_link ?new (nodes ! i) (nodes ! j) = None"
      unfolding first_link_def find_None_iff
    proof
      assume "\<exists>ve. ve \<in> set ?new \<and> vertices ve = (nodes ! i, nodes ! j)"
      then obtain ve where v: "ve \<in> set ?new" "vertices ve = (nodes ! i, nodes ! j)" by blast
      from ends v(1) obtain j' where "vertices ve = (nodes ! i0, nodes ! j')" by blast
      with v(2) have "nodes ! i = nodes ! i0" by simp
      with distinct_nodes_nth [OF d ij(1) i0b] False show False by simp
    qed
    from others [OF False, of j] c old [OF ij] rhs none show ?thesis
      by (simp split: option.splits)
  qed
qed

lemma extract_all_first_links:
  "extract_all nodes acc snaps = Inr acc' \<Longrightarrow> distinct (map system_id nodes)
   \<Longrightarrow> square (length nodes) (adj_martix acc)
   \<Longrightarrow> uuids_below (next_uuid acc) (adj_martix acc)
   \<Longrightarrow> \<forall>i < length nodes. \<forall>j < length nodes.
        cell (adj_martix acc) i j = first_link (adjs acc) (nodes ! i) (nodes ! j)
   \<Longrightarrow> \<forall>i < length nodes. \<forall>j < length nodes.
        cell (adj_martix acc') i j = first_link (adjs acc') (nodes ! i) (nodes ! j)"
proof (induction snaps arbitrary: acc)
  case Nil
  then show ?case by simp
next
  case (Cons snap snaps)
  from Cons.prems(1) obtain acc1 where s: "ingest nodes acc snap = Inr acc1"
    "extract_all nodes acc1 snaps = Inr acc'"
    by (auto split: sum.splits)
  from ingest_keeps [OF s(1) Cons.prems(3,4)] have k: "square (length nodes) (adj_martix acc1)"
    "uuids_below (next_uuid acc1) (adj_martix acc1)" by simp_all
  have "\<forall>i < length nodes. \<forall>j < length nodes.
        cell (adj_martix acc1) i j = first_link (adjs acc1) (nodes ! i) (nodes ! j)"
    using ingest_first_links [OF s(1) Cons.prems(2,3,4,5)] by blast
  from Cons.IH [OF s(2) Cons.prems(2) k this] show ?case .
qed

lemma empty_matrix_facts:
  "square n (empty_matrix n)" "uuids_below u (empty_matrix n)"
  "i < n \<Longrightarrow> j < n \<Longrightarrow> cell (empty_matrix n) i j = None"
  by (simp_all add: square_def uuids_below_def empty_matrix_def cell_def list_all_length)

lemma main_extract_first_links:
  assumes "main_extract nodes u snaps = Inr acc'" "distinct (map system_id nodes)"
    "i < length nodes" "j < length nodes"
  shows "cell (adj_martix acc') i j = first_link (adjs acc') (nodes ! i) (nodes ! j)"
proof -
  let ?acc = "\<lparr>adjs = [], adj_martix = empty_matrix (length nodes), next_uuid = u\<rparr>"
  from assms(1) have e: "extract_all nodes ?acc snaps = Inr acc'"
    by (simp add: main_extract_def)
  have "\<forall>i < length nodes. \<forall>j < length nodes.
        cell (adj_martix ?acc) i j = first_link (adjs ?acc) (nodes ! i) (nodes ! j)"
    by (simp add: empty_matrix_facts first_link_def)
  from extract_all_first_links [OF e assms(2) _ _ this] assms(3,4) show ?thesis
    by (simp add: empty_matrix_facts)
qed

section \<open>First discovery wins in the matrix\<close>

text \<open>
  C4. The matrix is written only where it is empty, and what is written stays.
  \<^item> A cell that holds a link holds the same link after a call of \<open>get_inf_adjs\<close>.
  \<^item> Recording an adjacency changes a cell only if the cell was empty, and then to the link
    just built.
  \<^item> A call whose snapshot resolves to node index \<open>i0\<close> returns links that all run from
    node \<open>i0\<close> to a node \<open>j'\<close>; in row \<open>i0\<close> a cell that held a link keeps it and an empty
    cell \<open>(i0, j')\<close> receives the first returned link to node \<open>j'\<close> (and stays empty when there
    is none); the other rows are as before.
  \<^item> Over any sequence of snapshots, each followed by the MAC back-fill of its links as in
    \<open>main\<close>, a cell that holds a link keeps that very link (the links in the matrix were
    built before the calls, so the back-fill does not touch them).
  \<^item> After \<open>main\<close> has gone through all snapshots, starting from the empty matrix, cell
    \<open>(i, j)\<close> is the first link of \<open>all_adjs\<close> from node \<open>i\<close> to node \<open>j\<close>, or empty when
    there is none, for nodes with different system identifiers: later links of the pair,
    whatever their adjacency SIDs, are in \<open>all_adjs\<close> only.
\<close>

theorem adj_matrix_first_wins:
  "(get_inf_adjs isis nodes m u = Inr st \<longrightarrow> cell m i j = Some e
      \<longrightarrow> cell (adj_martix st) i j = Some e)
   \<and> (record_adjacency nodes node_id nbr_id ifname adj st0 = Inr st1
      \<longrightarrow> cell (adj_martix st1) i j \<noteq> cell (adj_martix st0) i j
      \<longrightarrow> cell (adj_martix st0) i j = None
          \<and> cell (adj_martix st1) i j = Some (last (adjs st1)))
   \<and> (get_inf_adjs isis nodes m u = Inr st \<and> length m = length nodes
        \<and> py_index (sys_to_idx nodes (oper_system_id isis)) (length nodes) = Some i0
      \<longrightarrow> (\<forall>ve \<in> set (adjs st). \<exists>j' < length nodes. vertices ve = (nodes ! i0, nodes ! j')
              \<and> sys_to_idx nodes (system_id (nodes ! j')) = int j')
          \<and> (\<forall>j'. cell (adj_martix st) i0 j'
                = (case cell m i0 j' of
                     Some e' \<Rightarrow> Some e'
                   | None \<Rightarrow> first_link_to nodes (adjs st) j'))
          \<and> (\<forall>i' j'. i' \<noteq> i0 \<longrightarrow> cell (adj_martix st) i' j' = cell m i' j'))
   \<and> (extract_all nodes acc snaps = Inr acc' \<and> square n (adj_martix acc)
        \<and> uuids_below (next_uuid acc) (adj_martix acc)
        \<and> i < n \<and> j < n \<and> cell (adj_martix acc) i j = Some e
      \<longrightarrow> cell (adj_martix acc') i j = Some e)
   \<and> (main_extract nodes u snaps = Inr fin \<and> distinct (map system_id nodes)
        \<and> i < length nodes \<and> j < length nodes
      \<longrightarrow> cell (adj_martix fin) i j = first_link (adjs fin) (nodes ! i) (nodes ! j))"
proof -
  have a: "get_inf_adjs isis nodes m u = Inr st \<longrightarrow> cell m i j = Some e
      \<longrightarrow> cell (adj_martix st) i j = Some e"
    using get_inf_adjs_cell [of isis nodes m u st i j e] by blast
  have b: "record_adjacency nodes node_id nbr_id ifname adj st0 = Inr st1
      \<longrightarrow> cell (adj_martix st1) i j \<noteq> cell (adj_martix st0) i j
      \<longrightarrow> cell (adj_martix st0) i j = None
          \<and> cell (adj_martix st1) i j = Some (last (adjs st1))"
    using record_adjacency_cell [of nodes node_id nbr_id ifname adj st0 st1 i j] by blast
  have c: "get_inf_adjs isis nodes m u = Inr st \<and> length m = length nodes
        \<and> py_index (sys_to_idx nodes (oper_system_id isis)) (length nodes) = Some i0
      \<longrightarrow> (\<forall>ve \<in> set (adjs st). \<exists>j' < length nodes. vertices ve = (nodes ! i0, nodes ! j')
              \<and> sys_to_idx nodes (system_id (nodes ! j')) = int j')
          \<and> (\<forall>j'. cell (adj_martix st) i0 j'
                = (case cell m i0 j' of
                     Some e' \<Rightarrow> Some e'
                   | None \<Rightarrow> first_link_to nodes (adjs st) j'))
          \<and> (\<forall>i' j'. i' \<noteq> i0 \<longrightarrow> cell (adj_martix st) i' j' = cell m i' j')"
    using get_inf_adjs_at [of isis nodes m u st i0] by blast
  have d: "extract_all nodes acc snaps = Inr acc' \<and> square n (adj_martix acc)
        \<and> uuids_below (next_uuid acc) (adj_martix acc)
        \<and> i < n \<and> j < n \<and> cell (adj_martix acc) i j = Some e
      \<longrightarrow> cell (adj_martix acc') i j = Some e"
    using extract_all_keeps [of nodes acc snaps acc' n] by blast
  have f: "main_extract nodes u snaps = Inr fin \<and> distinct (map system_id nodes)
        \<and> i < length nodes \<and> j < length nodes
      \<longrightarrow> cell (adj_martix fin) i j = first_link (adjs fin) (nodes ! i) (nodes ! j)"
    using main_extract_first_links [of nodes u snaps fin i j] by blast
  from a b c d f show ?thesis by (intro conjI)
qed

lemma ex_normalise_mac:
  "normalise_mac ''00:aa:00:00:00:01'' = ''0x00aa00000001''"
  "normalise_mac ''00:aa:00:00:00:02'' = ''0x00aa00000002''"
  by (simp_all add: normalise_mac_def py_lower_def)

lemma ex_main_extract:
  "main_extract ex_nodes 0 [ex_snap_R1, ex_snap_R2]
   = Inr \<lparr>adjs = [ex_filled 0 ex_R1 ex_R2 100 ''to-R2-a'' ''0x00aa00000002'' ''0x00aa00000001'',
                  ex_filled 1 ex_R1 ex_R2 200 ''to-R2-b'' ''0x00bb00000002'' ''0x00aa00000001'',
                  ex_filled 2 ex_R2 ex_R1 300 ''to-R1-a'' ''0x00aa00000001'' ''0x00aa00000002''],
          adj_martix =
            [[None,
              Some (ex_filled 0 ex_R1 ex_R2 100 ''to-R2-a'' ''0x00aa00000002'' ''0x00aa00000001'')],
             [Some (ex_filled 2 ex_R2 ex_R1 300 ''to-R1-a'' ''0x00aa00000001'' ''0x00aa00000002''),
              None]],
          next_uuid = 3\<rparr>"
  by (simp add: main_extract_def ingest_def ex_snap_R1_def ex_snap_R2_def ex_hw_def
      Let_def get_inf_adjs_def inf_step_def record_adjacency_def matrix_store_def ex_ifc_def
      ex_nodes_def ex_R1_def ex_R2_def VNode_init_def ex_normalise sys_to_idx_def
      py_getitem_def py_setitem_def py_index_def empty_matrix_def ex_link_def ex_filled_def
      VEdge_init_def set_inf_name_def set_nei_snpa_def numeral_2_eq_2 numeral_3_eq_3
      ex_normalise_mac set_inf_mac_def startswith_def backfill_matrix_def backfill_cell_def)

theorem adj_matrix_first_wins_witness:
  "main_extract ex_nodes 0 [ex_snap_R1, ex_snap_R2]
   = Inr \<lparr>adjs = [ex_filled 0 ex_R1 ex_R2 100 ''to-R2-a'' ''0x00aa00000002'' ''0x00aa00000001'',
                  ex_filled 1 ex_R1 ex_R2 200 ''to-R2-b'' ''0x00bb00000002'' ''0x00aa00000001'',
                  ex_filled 2 ex_R2 ex_R1 300 ''to-R1-a'' ''0x00aa00000001'' ''0x00aa00000002''],
          adj_martix =
            [[None,
              Some (ex_filled 0 ex_R1 ex_R2 100 ''to-R2-a'' ''0x00aa00000002'' ''0x00aa00000001'')],
             [Some (ex_filled 2 ex_R2 ex_R1 300 ''to-R1-a'' ''0x00aa00000001'' ''0x00aa00000002''),
              None]],
          next_uuid = 3\<rparr>
   \<and> first_link
        [ex_filled 0 ex_R1 ex_R2 100 ''to-R2-a'' ''0x00aa00000002'' ''0x00aa00000001'',
         ex_filled 1 ex_R1 ex_R2 200 ''to-R2-b'' ''0x00bb00000002'' ''0x00aa00000001'',
         ex_filled 2 ex_R2 ex_R1 300 ''to-R1-a'' ''0x00aa00000001'' ''0x00aa00000002'']
        ex_R1 ex_R2
      = Some (ex_filled 0 ex_R1 ex_R2 100 ''to-R2-a'' ''0x00aa00000002'' ''0x00aa00000001'')
   \<and> adj_sid (ex_filled 1 ex_R1 ex_R2 200 ''to-R2-b'' ''0x00bb00000002'' ''0x00aa00000001'')
      \<noteq> adj_sid (ex_filled 0 ex_R1 ex_R2 100 ''to-R2-a'' ''0x00aa00000002'' ''0x00aa00000001'')"
proof -
  let ?fin = "\<lparr>adjs = [ex_filled 0 ex_R1 ex_R2 100 ''to-R2-a'' ''0x00aa00000002'' ''0x00aa00000001'',
                  ex_filled 1 ex_R1 ex_R2 200 ''to-R2-b'' ''0x00bb00000002'' ''0x00aa00000001'',
                  ex_filled 2 ex_R2 ex_R1 300 ''to-R1-a'' ''0x00aa00000001'' ''0x00aa00000002''],
          adj_martix =
            [[None,
              Some (ex_filled 0 ex_R1 ex_R2 100 ''to-R2-a'' ''0x00aa00000002'' ''0x00aa00000001'')],
             [Some (ex_filled 2 ex_R2 ex_R1 300 ''to-R1-a'' ''0x00aa00000001'' ''0x00aa00000002''),
              None]],
          next_uuid = 3\<rparr>"
  have d: "distinct (map system_id ex_nodes)" "(0::nat) < length ex_nodes" "1 < length ex_nodes"
    "ex_nodes ! 0 = ex_R1" "ex_nodes ! 1 = ex_R2"
    by (simp_all add: ex_nodes_def ex_R1_def ex_R2_def VNode_init_def)
  have c: "cell (adj_martix ?fin) 0 1
      = Some (ex_filled 0 ex_R1 ex_R2 100 ''to-R2-a'' ''0x00aa00000002'' ''0x00aa00000001'')"
    by (simp add: cell_def)
  have s: "adj_sid (ex_filled 1 ex_R1 ex_R2 200 ''to-R2-b'' ''0x00bb00000002'' ''0x00aa00000001'')
      \<noteq> adj_sid (ex_filled 0 ex_R1 ex_R2 100 ''to-R2-a'' ''0x00aa00000002'' ''0x00aa00000001'')"
    by (simp add: ex_filled_def ex_link_def)
  from adj_matrix_first_wins [where nodes = ex_nodes and u = 0
      and snaps = "[ex_snap_R1, ex_snap_R2]" and fin = ?fin and i = 0 and j = 1]
    ex_main_extract d
  have "cell (adj_martix ?fin) 0 1 = first_link (adjs ?fin) ex_R1 ex_R2" by simp
  with c ex_main_extract s show ?thesis by simp
qed

end
